theory Spec2Isabelle
  imports Main "HOL-Library.Multiset" "HOL-Library.Product_Lexorder"
begin

section \<open>Strings and numbers as the Go code reads them\<close>

text \<open>
  A Go string is a sequence of bytes; \<open>string\<close> (a list of 8-bit characters) is the
  same thing. A rune (the \<open>Ch\<close> of a key event) is a code point, a natural number here,
  and \<open>string(ev.Ch)\<close> is its UTF-8 encoding. Go's \<open>int\<close> is taken to be 64 bits wide;
  it is modelled by \<open>int\<close>, with the range written out where a value is parsed.
\<close>

definition byte :: "nat \<Rightarrow> char" where
  "byte n = char_of n"

definition string_of_rune :: "nat \<Rightarrow> string" where
  "string_of_rune r =
     (if r < 0x80 then [byte r]
      else if r < 0x800 then [byte (0xC0 + r div 64), byte (0x80 + r mod 64)]
      else if (0xD800 \<le> r \<and> r < 0xE000) \<or> 0x10FFFF < r then [byte 0xEF, byte 0xBF, byte 0xBD]
      else if r < 0x10000 then
        [byte (0xE0 + r div 4096), byte (0x80 + (r div 64) mod 64), byte (0x80 + r mod 64)]
      else
        [byte (0xF0 + r div 262144), byte (0x80 + (r div 4096) mod 64),
         byte (0x80 + (r div 64) mod 64), byte (0x80 + r mod 64)])"

text \<open>\<open>fmt.Sprintf("%d", n)\<close>: the decimal digits, with a minus sign for a negative number.\<close>

fun digits :: "nat \<Rightarrow> string" where
  "digits n = (if n < 10 then [''0123456789'' ! n] else digits (n div 10) @ [''0123456789'' ! (n mod 10)])"

declare digits.simps [simp del]

definition itoa :: "int \<Rightarrow> string" where
  "itoa n = (if n < 0 then CHR ''-'' # digits (nat (- n)) else digits (nat n))"

text \<open>A number in at least \<open>w\<close> digits, with zeros in front.\<close>

definition pad :: "nat \<Rightarrow> nat \<Rightarrow> string" where
  "pad w n = replicate (w - length (digits n)) CHR ''0'' @ digits n"

text \<open>
  \<open>strconv.Atoi\<close>: an optional sign, then at least one decimal digit and nothing else;
  a value outside the 64-bit range is an error as well. \<open>None\<close> is the error return.
\<close>

definition is_digit :: "char \<Rightarrow> bool" where
  "is_digit c = (48 \<le> (of_char c :: nat) \<and> (of_char c :: nat) \<le> 57)"

definition digits_value :: "string \<Rightarrow> int" where
  "digits_value s = foldl (\<lambda>a c. 10 * a + (int (of_char c) - 48)) 0 s"

definition Atoi :: "string \<Rightarrow> int option" where
  "Atoi s =
     (let neg = (s \<noteq> [] \<and> hd s = CHR ''-'');
          signed = (s \<noteq> [] \<and> (hd s = CHR ''+'' \<or> hd s = CHR ''-''));
          body = (if signed then tl s else s)
      in if body = [] \<or> \<not> list_all is_digit body then None
         else let n = (if neg then - digits_value body else digits_value body)
              in if n < - (2 ^ 63) \<or> 2 ^ 63 - 1 < n then None else Some n)"

text \<open>
  \<open>strings.SplitN(s, ":", 2)\<close>: the whole string when it has no colon, otherwise the
  part before the first colon and the part after it.
\<close>

definition SplitN_colon :: "string \<Rightarrow> string list" where
  "SplitN_colon s =
     (if CHR '':'' \<in> set s
      then [takeWhile (\<lambda>c. c \<noteq> CHR '':'') s, tl (dropWhile (\<lambda>c. c \<noteq> CHR '':'') s)]
      else [s])"

text \<open>
  \<open>strings.TrimSpace\<close> removes the leading and trailing white space runes, as
  \<open>unicode.IsSpace\<close> defines them. On bytes these are the UTF-8 encodings below: tab,
  line feed, vertical tab, form feed, carriage return, space, U+0085, U+00A0, U+1680,
  U+2000 to U+200A, U+2028, U+2029, U+202F, U+205F and U+3000.
\<close>

definition space_runes :: "string list" where
  "space_runes =
     [[CHR 0x09], [CHR 0x0A], [CHR 0x0B], [CHR 0x0C], [CHR 0x0D], [CHR 0x20],
      [CHR 0xC2, CHR 0x85], [CHR 0xC2, CHR 0xA0], [CHR 0xE1, CHR 0x9A, CHR 0x80],
      [CHR 0xE2, CHR 0x80, CHR 0x80], [CHR 0xE2, CHR 0x80, CHR 0x81],
      [CHR 0xE2, CHR 0x80, CHR 0x82], [CHR 0xE2, CHR 0x80, CHR 0x83],
      [CHR 0xE2, CHR 0x80, CHR 0x84], [CHR 0xE2, CHR 0x80, CHR 0x85],
      [CHR 0xE2, CHR 0x80, CHR 0x86], [CHR 0xE2, CHR 0x80, CHR 0x87],
      [CHR 0xE2, CHR 0x80, CHR 0x88], [CHR 0xE2, CHR 0x80, CHR 0x89],
      [CHR 0xE2, CHR 0x80, CHR 0x8A], [CHR 0xE2, CHR 0x80, CHR 0xA8],
      [CHR 0xE2, CHR 0x80, CHR 0xA9], [CHR 0xE2, CHR 0x80, CHR 0xAF],
      [CHR 0xE2, CHR 0x81, CHR 0x9F], [CHR 0xE3, CHR 0x80, CHR 0x80]]"

definition space_width :: "string list \<Rightarrow> string \<Rightarrow> nat" where
  "space_width encs s =
     (case find (\<lambda>e. take (length e) s = e) encs of None \<Rightarrow> 0 | Some e \<Rightarrow> length e)"

fun trim_front :: "string list \<Rightarrow> string \<Rightarrow> string" where
  "trim_front encs [] = []"
| "trim_front encs (c # cs) =
     (let n = space_width encs (c # cs)
      in if n = 0 then c # cs else trim_front encs (drop (n - 1) cs))"

definition TrimSpace :: "string \<Rightarrow> string" where
  "TrimSpace s = rev (trim_front (map rev space_runes) (rev (trim_front space_runes s)))"

text \<open>Go's integer division truncates towards zero.\<close>

definition half :: "int \<Rightarrow> int" where
  "half x = (if 0 \<le> x then x div 2 else - ((- x) div 2))"

section \<open>The store\<close>

text \<open>
  A time value (\<open>time.Time\<close>, to the second, in UTC) by its calendar fields. \<open>Before\<close>
  compares two of them, and \<open>zero_time\<close> is \<open>time.Time{}\<close>, the first second of year 1.
\<close>

record datetime =
  year :: nat
  month :: nat
  day :: nat
  hour :: nat
  minute :: nat
  second :: nat

definition calendar :: "datetime \<Rightarrow> nat \<times> nat \<times> nat \<times> nat \<times> nat \<times> nat" where
  "calendar t = (year t, month t, day t, hour t, minute t, second t)"

definition Before :: "datetime \<Rightarrow> datetime \<Rightarrow> bool" where
  "Before a b = (calendar a < calendar b)"

definition zero_time :: datetime where
  "zero_time = \<lparr>year = 1, month = 1, day = 1, hour = 0, minute = 0, second = 0\<rparr>"

text \<open>
  The table \<open>tasks\<close> of \<open>initDB\<close>: one row per task, \<open>id\<close> the primary key. The column
  \<open>created_at\<close> is declared \<open>DATETIME\<close>; \<open>row_created_at\<close> is the time that it holds.
\<close>

record row =
  row_id :: int
  row_title :: string
  row_priority :: int
  row_created_at :: datetime
  row_parent_id :: "int option"

text \<open>
  \<open>rows.Scan(..., &createdAt, ...)\<close> with \<open>createdAt\<close> a string: the driver hands a
  \<open>DATETIME\<close> column over as a time value, and \<open>Scan\<close> writes a time value into a string
  with \<open>time.RFC3339Nano\<close>, that is date, the letter T, time of day (with no fraction for
  whole seconds, which is what \<open>CURRENT_TIMESTAMP\<close> stores), and Z for UTC.
\<close>

definition scan_datetime :: "datetime \<Rightarrow> string" where
  "scan_datetime t =
     pad 4 (year t) @ ''-'' @ pad 2 (month t) @ ''-'' @ pad 2 (day t) @ ''T''
       @ pad 2 (hour t) @ '':'' @ pad 2 (minute t) @ '':'' @ pad 2 (second t) @ ''Z''"

text \<open>The statements the program sends, with their arguments.\<close>

datatype stmt =
    CreateTable
  | SelectAll
  | Insert string int "int option"
  | Delete int
  | Update int string int
  | SelectPriority int
  | SetPriority int int

datatype error = Err string

text \<open>
  The database handle: the rows of the table (in the order in which \<open>loadTasks\<close> will
  visit them), the counter of \<open>AUTOINCREMENT\<close>, whether the connection enforces foreign
  keys (SQLite's pragma \<open>foreign_keys\<close>), a fault that makes every statement fail with the
  given message, and the statements sent so far.
\<close>

record DB =
  table :: "row list"
  seq :: int
  foreign_keys :: bool
  fault :: "string option"
  issued :: "stmt list"

definition log_stmt :: "stmt \<Rightarrow> DB \<Rightarrow> DB" where
  "log_stmt s d = d\<lparr>issued := issued d @ [s]\<rparr>"

definition next_id :: "DB \<Rightarrow> int" where
  "next_id d = max (seq d) (fold max (map row_id (table d)) 0) + 1"

text \<open>
  \<open>ON DELETE CASCADE\<close>, when the connection enforces foreign keys: rows that refer to a
  deleted row are deleted in turn, until none is left.
\<close>

definition refers_to :: "int list \<Rightarrow> row \<Rightarrow> bool" where
  "refers_to ids r = (case row_parent_id r of None \<Rightarrow> False | Some p \<Rightarrow> p \<in> set ids)"

function cascade :: "int list \<Rightarrow> row list \<Rightarrow> row list" where
  "cascade dead rs =
     (if filter (refers_to dead) rs = [] then rs
      else cascade (map row_id (filter (refers_to dead) rs))
             (filter (\<lambda>r. \<not> refers_to dead r) rs))"
  by pat_completeness auto
termination
proof (relation "measure (\<lambda>(dead, rs). length rs)")
  show "wf (measure (\<lambda>(dead, rs). length rs))"
    by simp
next
  fix dead :: "int list" and rs :: "row list"
  assume "filter (refers_to dead) rs \<noteq> []"
  then have "0 < length (filter (refers_to dead) rs)"
    by simp
  moreover have "length (filter (refers_to dead) rs) + length (filter (\<lambda>r. \<not> refers_to dead r) rs)
      = length rs"
    by (rule sum_length_filter_compl)
  ultimately have "length (filter (\<lambda>r. \<not> refers_to dead r) rs) < length rs"
    by linarith
  then show "((map row_id (filter (refers_to dead) rs), filter (\<lambda>r. \<not> refers_to dead r) rs),
      (dead, rs)) \<in> measure (\<lambda>(dead, rs). length rs)"
    by simp
qed

declare cascade.simps [simp del]

text \<open>
  \<open>INSERT INTO tasks (title, priority[, parent_id]) VALUES (...)\<close>; the result is the new
  row's id (\<open>LastInsertId\<close>). \<open>now\<close> is the value of \<open>CURRENT_TIMESTAMP\<close>.
\<close>

definition sql_insert :: "datetime \<Rightarrow> string \<Rightarrow> int \<Rightarrow> int option \<Rightarrow> DB \<Rightarrow> (error + int) \<times> DB" where
  "sql_insert now ttl p par d0 =
     (let d = log_stmt (Insert ttl p par) d0
      in case fault d of
           Some m \<Rightarrow> (Inl (Err m), d)
         | None \<Rightarrow>
             if foreign_keys d \<and> (case par of None \<Rightarrow> False | Some q \<Rightarrow> q \<notin> set (map row_id (table d)))
             then (Inl (Err ''FOREIGN KEY constraint failed''), d)
             else let i = next_id d
                  in (Inr i,
                      d\<lparr>table := table d @
                           [\<lparr>row_id = i, row_title = ttl, row_priority = p,
                             row_created_at = now, row_parent_id = par\<rparr>],
                        seq := i\<rparr>))"

text \<open>\<open>DELETE FROM tasks WHERE id = ? OR parent_id = ?\<close>, both arguments the task's id.\<close>

definition delete_hits :: "int \<Rightarrow> row \<Rightarrow> bool" where
  "delete_hits i r = (row_id r = i \<or> row_parent_id r = Some i)"

definition sql_delete :: "int \<Rightarrow> DB \<Rightarrow> error option \<times> DB" where
  "sql_delete i d0 =
     (let d = log_stmt (Delete i) d0
      in case fault d of
           Some m \<Rightarrow> (Some (Err m), d)
         | None \<Rightarrow>
             (let gone = filter (delete_hits i) (table d);
                  kept = filter (\<lambda>r. \<not> delete_hits i r) (table d)
              in (None, d\<lparr>table := (if foreign_keys d then cascade (map row_id gone) kept else kept)\<rparr>)))"

text \<open>\<open>UPDATE tasks SET title = ?, priority = ? WHERE id = ?\<close>\<close>

definition sql_update :: "int \<Rightarrow> string \<Rightarrow> int \<Rightarrow> DB \<Rightarrow> error option \<times> DB" where
  "sql_update i ttl p d0 =
     (let d = log_stmt (Update i ttl p) d0
      in case fault d of
           Some m \<Rightarrow> (Some (Err m), d)
         | None \<Rightarrow>
             (None, d\<lparr>table := map (\<lambda>r. if row_id r = i then r\<lparr>row_title := ttl, row_priority := p\<rparr> else r)
                                 (table d)\<rparr>))"

text \<open>\<open>SELECT priority FROM tasks WHERE id = ?\<close>, read by \<open>QueryRow(...).Scan\<close>.\<close>

definition sql_select_priority :: "int \<Rightarrow> DB \<Rightarrow> (error + int) \<times> DB" where
  "sql_select_priority i d0 =
     (let d = log_stmt (SelectPriority i) d0
      in case fault d of
           Some m \<Rightarrow> (Inl (Err m), d)
         | None \<Rightarrow>
             (case find (\<lambda>r. row_id r = i) (table d) of
                None \<Rightarrow> (Inl (Err ''sql: no rows in result set''), d)
              | Some r \<Rightarrow> (Inr (row_priority r), d)))"

text \<open>\<open>UPDATE tasks SET priority = ? WHERE id = ?\<close>\<close>

definition sql_set_priority :: "int \<Rightarrow> int \<Rightarrow> DB \<Rightarrow> error option \<times> DB" where
  "sql_set_priority i p d0 =
     (let d = log_stmt (SetPriority i p) d0
      in case fault d of
           Some m \<Rightarrow> (Some (Err m), d)
         | None \<Rightarrow>
             (None, d\<lparr>table := map (\<lambda>r. if row_id r = i then r\<lparr>row_priority := p\<rparr> else r) (table d)\<rparr>))"

text \<open>
  \<open>SELECT id, title, priority, created_at, parent_id FROM tasks ORDER BY ...\<close>: the rows
  go into a Go map keyed by id, which forgets the order of the result.
\<close>

definition sql_select_all :: "DB \<Rightarrow> (error + row list) \<times> DB" where
  "sql_select_all d0 =
     (let d = log_stmt SelectAll d0
      in case fault d of
           Some m \<Rightarrow> (Inl (Err m), d)
         | None \<Rightarrow> (Inr (table d), d))"

section \<open>Tasks, the tree builder and the flattener\<close>

text \<open>
  The struct \<open>Task\<close>. \<open>Children\<close> holds the nodes themselves: every node that
  \<open>loadTasks\<close> makes is appended to the \<open>Children\<close> of at most one parent, so the nodes
  that can be reached from \<open>tm.tasks\<close> form a forest.
\<close>

datatype Task =
  Task (ID: int) (Title: string) (Priority: int) (CreatedAt: datetime) (ParentID: "int option")
    (Children: "Task list") (IsExpanded: bool)

text \<open>
  \<open>sortTasks\<close>: \<open>less_task\<close> is the function given to \<open>sort.Slice\<close>. On a slice of at most
  twelve elements the \<open>sort.Slice\<close> of Go 1.19 and later is insertion sort, which leaves
  elements that compare equal in the order they came in; the model is that sort:
  \<open>insert_task x ys\<close> puts an element \<open>x\<close> that came before the sorted \<open>ys\<close> in front of the
  first element that is not less than it. On longer slices \<open>sort.Slice\<close> promises no
  order among equal elements; nothing below is about the order of equal elements in
  such a slice.
\<close>

definition less_task :: "Task \<Rightarrow> Task \<Rightarrow> bool" where
  "less_task a b =
     (if Priority a \<noteq> Priority b then Priority b < Priority a
      else Before (CreatedAt a) (CreatedAt b))"

fun insert_task :: "Task \<Rightarrow> Task list \<Rightarrow> Task list" where
  "insert_task x [] = [x]"
| "insert_task x (y # ys) = (if less_task y x then y # insert_task x ys else x # y # ys)"

definition sortTasks :: "Task list \<Rightarrow> Task list" where
  "sortTasks ts = foldr insert_task ts []"

text \<open>
  The hierarchy of \<open>loadTasks\<close>, from the records as the first loop has read them
  into \<open>taskMap\<close>. Every row becomes a node with \<open>IsExpanded\<close> set; a row
  without parent goes to \<open>tm.tasks\<close>, a row whose parent is in \<open>taskMap\<close> goes to that
  parent's \<open>Children\<close>, and any other row goes nowhere. So the children of a node are
  the rows that name its id as their parent, in the order in which the loop visits
  them, and \<open>sortTasks\<close> is then applied to \<open>tm.tasks\<close> and to every \<open>Children\<close>.

  \<open>build_nodes rows rs\<close> makes the nodes of the rows \<open>rs\<close> with all that hangs below
  them. Below a node, the rows that name that node as parent are taken out of the
  candidates: they are its children and nobody else's, and the recursion ends because
  the candidates get fewer.
\<close>

function build_nodes :: "row list \<Rightarrow> row list \<Rightarrow> Task list" where
  "build_nodes rows [] = []"
| "build_nodes rows (r # rs) =
     Task (row_id r) (row_title r) (row_priority r) (row_created_at r) (row_parent_id r)
       (sortTasks
          (build_nodes (filter (\<lambda>x. row_parent_id x \<noteq> Some (row_id r)) rows)
             (filter (\<lambda>x. row_parent_id x = Some (row_id r)) rows)))
       True
     # build_nodes rows rs"
  by pat_completeness auto
termination
proof (relation "measures [\<lambda>(rows, rs). length rows, \<lambda>(rows, rs). length rs]")
  show "wf (measures [\<lambda>(rows, rs). length rows, \<lambda>(rows, rs). length rs])"
    by simp
next
  fix rows :: "row list" and r :: row and rs :: "row list"
  let ?P = "\<lambda>x. row_parent_id x = Some (row_id r)"
  have sum: "length (filter ?P rows) + length (filter (\<lambda>x. \<not> ?P x) rows) = length rows"
    by (rule sum_length_filter_compl)
  have "length (filter (\<lambda>x. \<not> ?P x) rows) < length rows
      \<or> (length (filter (\<lambda>x. \<not> ?P x) rows) = length rows \<and> length (filter ?P rows) < length (r # rs))"
    using sum by (cases "length (filter ?P rows) = 0") auto
  then show "((filter (\<lambda>x. row_parent_id x \<noteq> Some (row_id r)) rows, filter ?P rows), (rows, r # rs))
      \<in> measures [\<lambda>(rows, rs). length rows, \<lambda>(rows, rs). length rs]"
    by auto
next
  fix rows :: "row list" and r :: row and rs :: "row list"
  show "((rows, rs), (rows, r # rs)) \<in> measures [\<lambda>(rows, rs). length rows, \<lambda>(rows, rs). length rs]"
    by simp
qed

definition buildHierarchy :: "row list \<Rightarrow> Task list" where
  "buildHierarchy rows = sortTasks (build_nodes rows (filter (\<lambda>r. row_parent_id r = None) rows))"

text \<open>
  \<open>buildFlatView\<close> appends to \<open>tm.flatView\<close>; the list it appends to is the last
  argument, and the result is that list afterwards.
\<close>

function buildFlatView :: "Task list \<Rightarrow> int \<Rightarrow> Task list \<Rightarrow> Task list" where
  "buildFlatView [] depth fv = fv"
| "buildFlatView (task # tasks) depth fv =
     buildFlatView tasks depth
       (if IsExpanded task \<and> 0 < length (Children task)
        then buildFlatView (Children task) (depth + 1) (fv @ [task])
        else fv @ [task])"
  by pat_completeness auto
termination
proof (relation "measure (\<lambda>(tasks, depth, fv). size_list size tasks)", goal_cases)
  case 1
  show ?case by simp
next
  case (2 task tasks depth fv)
  then show ?case by (cases task) simp
next
  case (3 task tasks depth fv)
  then show ?case by (cases task) simp
qed

section \<open>The task manager\<close>

text \<open>
  What the program takes from outside while it handles one event: the height of the
  terminal (\<open>termbox.Size\<close>), the clock of the store, and what \<open>time.Parse\<close> makes of a
  text that has a space where the layout of \<open>loadTasks\<close> has one.
\<close>

record Env =
  height :: int
  now :: datetime
  parse_layout :: "string \<Rightarrow> datetime option"

text \<open>
  \<open>time.Parse("2006-01-02 15:04:05", createdAt)\<close>: the layout has four digits, a dash,
  two digits, a dash, two digits and then a space, so a text without a space at its
  eleventh place is an error (\<open>None\<close>). \<open>loadTasks\<close> drops the error, and the time that
  \<open>time.Parse\<close> returns with an error is the zero time.
\<close>

definition time_Parse :: "Env \<Rightarrow> string \<Rightarrow> datetime option" where
  "time_Parse env s = (if 10 < length s \<and> s ! 10 = CHR '' '' then parse_layout env s else None)"

definition scan_row :: "Env \<Rightarrow> row \<Rightarrow> row" where
  "scan_row env r =
     r\<lparr>row_created_at :=
         (case time_Parse env (scan_datetime (row_created_at r)) of
            Some t \<Rightarrow> t
          | None \<Rightarrow> zero_time)\<rparr>"

record TaskManager =
  db :: DB
  tasks :: "Task list"
  currentIndex :: int
  scrollOffset :: int
  flatView :: "Task list"
  editMode :: bool
  editBuffer :: string
  statusMsg :: string
  inputMode :: string
  inputStep :: int
  inputTitle :: string
  inputPriority :: string

text \<open>
  \<open>loadTasks\<close>: when the query fails the function returns before it touches \<open>tm.tasks\<close>.
  Otherwise the first loop reads every row (\<open>scan_row\<close>) into \<open>taskMap\<close>, and the
  hierarchy is built from what it read. A row has a value in every column but
  \<open>parent_id\<close>, so \<open>rows.Scan\<close> has nothing to reject. \<open>render\<close>, \<open>getTaskDepth\<close> and \<open>formatDuration\<close> only read the manager and
  are left out.
\<close>

definition loadTasks :: "Env \<Rightarrow> TaskManager \<Rightarrow> error option \<times> TaskManager" where
  "loadTasks env tm =
     (case sql_select_all (db tm) of
        (Inl e, d) \<Rightarrow> (Some e, tm\<lparr>db := d\<rparr>)
      | (Inr rows, d) \<Rightarrow> (None, tm\<lparr>db := d, tasks := buildHierarchy (map (scan_row env) rows)\<rparr>))"

definition adjustScroll :: "Env \<Rightarrow> TaskManager \<Rightarrow> TaskManager" where
  "adjustScroll env tm =
     (let maxVisibleTasks = height env - 4
      in if maxVisibleTasks \<le> 0 then tm
         else
           let s1 = (if currentIndex tm < scrollOffset tm then currentIndex tm
                     else if scrollOffset tm + maxVisibleTasks \<le> currentIndex tm
                     then currentIndex tm - maxVisibleTasks + 1
                     else scrollOffset tm);
               s2 = (if int (length (flatView tm)) - maxVisibleTasks < s1
                     then int (length (flatView tm)) - maxVisibleTasks else s1);
               s3 = (if s2 < 0 then 0 else s2)
           in tm\<lparr>scrollOffset := s3\<rparr>)"

definition rebuildFlatView :: "Env \<Rightarrow> TaskManager \<Rightarrow> TaskManager" where
  "rebuildFlatView env tm =
     (let fv = buildFlatView (tasks tm) 0 [];
          c1 = (if int (length fv) \<le> currentIndex tm then int (length fv) - 1 else currentIndex tm);
          c2 = (if c1 < 0 then 0 else c1)
      in adjustScroll env (tm\<lparr>flatView := fv, currentIndex := c2\<rparr>))"

text \<open>
  The commands. Each returns the error of the store, if any, and the manager
  afterwards. The callers of \<open>loadTasks\<close> drop its error.
\<close>

definition addTask :: "Env \<Rightarrow> string \<Rightarrow> int \<Rightarrow> int option \<Rightarrow> TaskManager \<Rightarrow> error option \<times> TaskManager" where
  "addTask env ttl priority parentID tm =
     (case sql_insert (now env) ttl priority parentID (db tm) of
        (Inl e, d) \<Rightarrow> (Some e, tm\<lparr>db := d\<rparr>)
      | (Inr i, d) \<Rightarrow>
          (None,
           rebuildFlatView env
             (snd (loadTasks env
                (tm\<lparr>db := d, statusMsg := ''Added task: '' @ ttl @ '' (ID: '' @ itoa i @ '')''\<rparr>)))))"

definition deleteTask :: "Env \<Rightarrow> int \<Rightarrow> TaskManager \<Rightarrow> error option \<times> TaskManager" where
  "deleteTask env taskID tm =
     (case sql_delete taskID (db tm) of
        (Some e, d) \<Rightarrow> (Some e, tm\<lparr>db := d\<rparr>)
      | (None, d) \<Rightarrow>
          (None,
           rebuildFlatView env
             (snd (loadTasks env (tm\<lparr>db := d, statusMsg := ''Deleted task ID: '' @ itoa taskID\<rparr>)))))"

definition updateTask :: "Env \<Rightarrow> int \<Rightarrow> string \<Rightarrow> int \<Rightarrow> TaskManager \<Rightarrow> error option \<times> TaskManager" where
  "updateTask env taskID ttl priority tm =
     (case sql_update taskID ttl priority (db tm) of
        (Some e, d) \<Rightarrow> (Some e, tm\<lparr>db := d\<rparr>)
      | (None, d) \<Rightarrow>
          (None,
           rebuildFlatView env
             (snd (loadTasks env (tm\<lparr>db := d, statusMsg := ''Updated task ID: '' @ itoa taskID\<rparr>)))))"

definition wrap64 :: "int \<Rightarrow> int" where
  "wrap64 x = (x + 2 ^ 63) mod 2 ^ 64 - 2 ^ 63"

definition updateTaskPriority :: "Env \<Rightarrow> int \<Rightarrow> int \<Rightarrow> TaskManager \<Rightarrow> error option \<times> TaskManager" where
  "updateTaskPriority env taskID priorityChange tm =
     (case sql_select_priority taskID (db tm) of
        (Inl e, d) \<Rightarrow> (Some e, tm\<lparr>db := d\<rparr>)
      | (Inr currentPriority, d) \<Rightarrow>
          (let p0 = wrap64 (currentPriority + priorityChange);
               p1 = (if p0 < 1 then 1 else p0);
               newPriority = (if 100 < p1 then 100 else p1)
           in case sql_set_priority taskID newPriority d of
                (Some e, d') \<Rightarrow> (Some e, tm\<lparr>db := d'\<rparr>)
              | (None, d') \<Rightarrow>
                  (None,
                   rebuildFlatView env
                     (snd (loadTasks env
                        (tm\<lparr>db := d',
                            statusMsg := ''Updated task priority: '' @ itoa currentPriority
                              @ '' -> '' @ itoa newPriority\<rparr>))))))"

text \<open>
  \<open>initDB\<close> opens the connection with \<open>sql.Open("sqlite3", "tasks.db")\<close> and sends nothing
  but \<open>CREATE TABLE IF NOT EXISTS\<close>. A connection opened so has SQLite's pragma
  \<open>foreign_keys\<close> at its default, off, and the program never sets it. \<open>NewTaskManager\<close>
  ends the process when \<open>initDB\<close> fails (\<open>Inl\<close>).
\<close>

definition initDB :: "DB \<Rightarrow> error option \<times> DB" where
  "initDB file =
     (let d = log_stmt CreateTable (file\<lparr>foreign_keys := False\<rparr>)
      in case fault d of Some m \<Rightarrow> (Some (Err m), d) | None \<Rightarrow> (None, d))"

definition NewTaskManager :: "Env \<Rightarrow> DB \<Rightarrow> error + TaskManager" where
  "NewTaskManager env file =
     (case initDB file of
        (Some e, d) \<Rightarrow> Inl e
      | (None, d) \<Rightarrow>
          Inr (rebuildFlatView env
                 (snd (loadTasks env
                    \<lparr>db = d, tasks = [], currentIndex = 0, scrollOffset = 0, flatView = [],
                     editMode = False, editBuffer = [], statusMsg = [], inputMode = [],
                     inputStep = 0, inputTitle = [], inputPriority = []\<rparr>))))"

section \<open>Key events and the three modes\<close>

text \<open>
  A key event has a key code and a rune; the handlers compare the code with the
  constants below only (\<open>KeyOther\<close> is any other code, also 0). Events that are not key
  events change nothing.
\<close>

datatype key =
  KeyCtrlC | KeyCtrlD | KeyCtrlU | KeySpace | KeyEsc | KeyEnter | KeyBackspace | KeyBackspace2
  | KeyOther

datatype event = EventKey key nat | EventOther

definition rune :: "char \<Rightarrow> nat" where
  "rune c = of_char c"

text \<open>
  The guard \<open>len(tm.flatView) > 0 && tm.currentIndex < len(tm.flatView)\<close>, and the read
  \<open>tm.flatView[tm.currentIndex]\<close>, which panics (\<open>None\<close>) outside the slice.
\<close>

definition selectable :: "TaskManager \<Rightarrow> bool" where
  "selectable tm = (0 < length (flatView tm) \<and> currentIndex tm < int (length (flatView tm)))"

definition at_index :: "Task list \<Rightarrow> int \<Rightarrow> Task option" where
  "at_index fv i = (if 0 \<le> i \<and> i < int (length fv) then Some (fv ! nat i) else None)"

text \<open>
  \<open>task.IsExpanded = !task.IsExpanded\<close> writes through the pointer that the flat view
  holds: it changes the node of the forest that this pointer refers to. \<open>taskMap\<close> has
  one node per id, so that node is the one with the task's id.
\<close>

fun toggle :: "int \<Rightarrow> Task \<Rightarrow> Task" where
  "toggle i (Task n ttl p c par ch e) =
     Task n ttl p c par (map (toggle i) ch) (if n = i then \<not> e else e)"

definition scrollHalfPageDown :: "Env \<Rightarrow> TaskManager \<Rightarrow> TaskManager" where
  "scrollHalfPageDown env tm =
     (let halfPage = half (height env - 4);
          c = currentIndex tm + halfPage;
          c' = (if int (length (flatView tm)) \<le> c then int (length (flatView tm)) - 1 else c)
      in adjustScroll env (tm\<lparr>currentIndex := c'\<rparr>))"

definition scrollHalfPageUp :: "Env \<Rightarrow> TaskManager \<Rightarrow> TaskManager" where
  "scrollHalfPageUp env tm =
     (let halfPage = half (height env - 4);
          c = currentIndex tm - halfPage;
          c' = (if c < 0 then 0 else c)
      in adjustScroll env (tm\<lparr>currentIndex := c'\<rparr>))"

text \<open>
  \<open>handleNormalMode\<close> has two switches, one on the key code and then one on the rune.
  The results are \<open>None\<close> for a panic, and otherwise whether to quit and the manager.
\<close>

definition normal_key :: "Env \<Rightarrow> key \<Rightarrow> TaskManager \<Rightarrow> (bool \<times> TaskManager) option" where
  "normal_key env k tm =
     (case k of
        KeyCtrlC \<Rightarrow> Some (True, tm)
      | KeyCtrlD \<Rightarrow> Some (False, scrollHalfPageDown env tm)
      | KeyCtrlU \<Rightarrow> Some (False, scrollHalfPageUp env tm)
      | KeySpace \<Rightarrow>
          if selectable tm then
            (case at_index (flatView tm) (currentIndex tm) of
               None \<Rightarrow> None
             | Some task \<Rightarrow>
                 if 0 < length (Children task)
                 then Some (False, rebuildFlatView env (tm\<lparr>tasks := map (toggle (ID task)) (tasks tm)\<rparr>))
                 else Some (False, tm))
          else Some (False, tm)
      | _ \<Rightarrow> Some (False, tm))"

definition normal_ch :: "Env \<Rightarrow> nat \<Rightarrow> TaskManager \<Rightarrow> (bool \<times> TaskManager) option" where
  "normal_ch env ch tm =
     (if ch = rune CHR ''q'' then Some (True, tm)
      else if ch = rune CHR ''j'' then
        Some (False,
          if currentIndex tm < int (length (flatView tm)) - 1
          then adjustScroll env (tm\<lparr>currentIndex := currentIndex tm + 1\<rparr>) else tm)
      else if ch = rune CHR ''k'' then
        Some (False,
          if 0 < currentIndex tm
          then adjustScroll env (tm\<lparr>currentIndex := currentIndex tm - 1\<rparr>) else tm)
      else if ch = rune CHR ''J'' then
        (if selectable tm then
           (case at_index (flatView tm) (currentIndex tm) of
              None \<Rightarrow> None
            | Some task \<Rightarrow> Some (False, snd (updateTaskPriority env (ID task) (- 1) tm)))
         else Some (False, tm))
      else if ch = rune CHR ''K'' then
        (if selectable tm then
           (case at_index (flatView tm) (currentIndex tm) of
              None \<Rightarrow> None
            | Some task \<Rightarrow> Some (False, snd (updateTaskPriority env (ID task) 1 tm)))
         else Some (False, tm))
      else if ch = rune CHR ''g'' then Some (False, adjustScroll env (tm\<lparr>currentIndex := 0\<rparr>))
      else if ch = rune CHR ''G'' then
        Some (False, adjustScroll env (tm\<lparr>currentIndex := int (length (flatView tm)) - 1\<rparr>))
      else if ch = rune CHR ''a'' then
        Some (False, tm\<lparr>inputMode := ''add'', inputStep := 0, inputTitle := [], inputPriority := []\<rparr>)
      else if ch = rune CHR ''s'' then
        Some (False,
          if selectable tm
          then tm\<lparr>inputMode := ''addsubtask'', inputStep := 0, inputTitle := [], inputPriority := []\<rparr>
          else tm)
      else if ch = rune CHR ''d'' then
        (if selectable tm then
           (case at_index (flatView tm) (currentIndex tm) of
              None \<Rightarrow> None
            | Some task \<Rightarrow> Some (False, snd (deleteTask env (ID task) tm)))
         else Some (False, tm))
      else if ch = rune CHR ''e'' then
        (if selectable tm then
           (case at_index (flatView tm) (currentIndex tm) of
              None \<Rightarrow> None
            | Some task \<Rightarrow>
                Some (False, tm\<lparr>editMode := True, editBuffer := Title task @ '':'' @ itoa (Priority task)\<rparr>))
         else Some (False, tm))
      else Some (False, tm))"

definition handleNormalMode :: "Env \<Rightarrow> key \<Rightarrow> nat \<Rightarrow> TaskManager \<Rightarrow> (bool \<times> TaskManager) option" where
  "handleNormalMode env k ch tm =
     (case normal_key env k (tm\<lparr>statusMsg := []\<rparr>) of
        None \<Rightarrow> None
      | Some (quit, tm1) \<Rightarrow> if quit then Some (True, tm1) else normal_ch env ch tm1)"

text \<open>\<open>handleInputMode\<close>: the two steps of adding a task.\<close>

definition clear_input :: "TaskManager \<Rightarrow> TaskManager" where
  "clear_input tm = tm\<lparr>inputMode := [], inputStep := 0, inputTitle := [], inputPriority := []\<rparr>"

definition creation_priority :: "string \<Rightarrow> int" where
  "creation_priority s =
     (if s \<noteq> [] then
        (case Atoi s of
           Some p \<Rightarrow> if 1 \<le> p \<and> p \<le> 100 then p else 50
         | None \<Rightarrow> 50)
      else 50)"

definition after_add :: "error option \<times> TaskManager \<Rightarrow> TaskManager" where
  "after_add r =
     (case r of
        (Some (Err m), tm) \<Rightarrow> clear_input (tm\<lparr>statusMsg := ''Error adding task: '' @ m\<rparr>)
      | (None, tm) \<Rightarrow> clear_input tm)"

definition append_input :: "string \<Rightarrow> TaskManager \<Rightarrow> TaskManager" where
  "append_input s tm =
     (if inputStep tm = 0 then tm\<lparr>inputTitle := inputTitle tm @ s\<rparr>
      else tm\<lparr>inputPriority := inputPriority tm @ s\<rparr>)"

definition handleInputMode :: "Env \<Rightarrow> key \<Rightarrow> nat \<Rightarrow> TaskManager \<Rightarrow> (bool \<times> TaskManager) option" where
  "handleInputMode env k ch tm =
     (case k of
        KeyEsc \<Rightarrow> Some (False, clear_input tm)
      | KeyEnter \<Rightarrow>
          if inputStep tm = 0 then
            (if inputTitle tm = [] then Some (False, tm\<lparr>statusMsg := ''Task title cannot be empty''\<rparr>)
             else Some (False, tm\<lparr>inputStep := 1\<rparr>))
          else
            (let priority = creation_priority (inputPriority tm)
             in if inputMode tm = ''addsubtask'' \<and> selectable tm then
                  (case at_index (flatView tm) (currentIndex tm) of
                     None \<Rightarrow> None
                   | Some currentTask \<Rightarrow>
                       Some (False, after_add (addTask env (inputTitle tm) priority (Some (ID currentTask)) tm)))
                else Some (False, after_add (addTask env (inputTitle tm) priority None tm)))
      | KeyBackspace \<Rightarrow>
          Some (False,
            if inputStep tm = 0 then
              (if 0 < length (inputTitle tm) then tm\<lparr>inputTitle := butlast (inputTitle tm)\<rparr> else tm)
            else
              (if 0 < length (inputPriority tm) then tm\<lparr>inputPriority := butlast (inputPriority tm)\<rparr>
               else tm))
      | KeyBackspace2 \<Rightarrow>
          Some (False,
            if inputStep tm = 0 then
              (if 0 < length (inputTitle tm) then tm\<lparr>inputTitle := butlast (inputTitle tm)\<rparr> else tm)
            else
              (if 0 < length (inputPriority tm) then tm\<lparr>inputPriority := butlast (inputPriority tm)\<rparr>
               else tm))
      | KeySpace \<Rightarrow> Some (False, append_input '' '' tm)
      | _ \<Rightarrow> Some (False, if ch \<noteq> 0 then append_input (string_of_rune ch) tm else tm))"

text \<open>\<open>handleEditMode\<close>: one buffer, \<open>title:priority\<close>.\<close>

definition edit_priority :: "Task \<Rightarrow> string \<Rightarrow> int" where
  "edit_priority task s =
     (let p0 = (case Atoi (TrimSpace s) of Some p \<Rightarrow> p | None \<Rightarrow> Priority task);
          p1 = (if p0 < 1 then 1 else p0)
      in if 100 < p1 then 100 else p1)"

definition handleEditMode :: "Env \<Rightarrow> key \<Rightarrow> nat \<Rightarrow> TaskManager \<Rightarrow> (bool \<times> TaskManager) option" where
  "handleEditMode env k ch tm =
     (case k of
        KeyEsc \<Rightarrow> Some (False, tm\<lparr>editMode := False, editBuffer := []\<rparr>)
      | KeyEnter \<Rightarrow>
          if selectable tm then
            (case at_index (flatView tm) (currentIndex tm) of
               None \<Rightarrow> None
             | Some task \<Rightarrow>
                 (case SplitN_colon (editBuffer tm) of
                    [l, r] \<Rightarrow>
                      Some (False,
                        (snd (updateTask env (ID task) (TrimSpace l) (edit_priority task r) tm))
                          \<lparr>editMode := False, editBuffer := []\<rparr>)
                  | _ \<Rightarrow> Some (False, tm\<lparr>editMode := False, editBuffer := []\<rparr>)))
          else Some (False, tm\<lparr>editMode := False, editBuffer := []\<rparr>)
      | KeyBackspace \<Rightarrow>
          Some (False,
            if 0 < length (editBuffer tm) then tm\<lparr>editBuffer := butlast (editBuffer tm)\<rparr> else tm)
      | KeyBackspace2 \<Rightarrow>
          Some (False,
            if 0 < length (editBuffer tm) then tm\<lparr>editBuffer := butlast (editBuffer tm)\<rparr> else tm)
      | _ \<Rightarrow>
          Some (False,
            if ch \<noteq> 0 then tm\<lparr>editBuffer := editBuffer tm @ string_of_rune ch\<rparr> else tm))"

definition handleInput :: "Env \<Rightarrow> event \<Rightarrow> TaskManager \<Rightarrow> (bool \<times> TaskManager) option" where
  "handleInput env ev tm =
     (case ev of
        EventKey k ch \<Rightarrow>
          if editMode tm then handleEditMode env k ch tm
          else if inputMode tm \<noteq> [] then handleInputMode env k ch tm
          else handleNormalMode env k ch tm
      | EventOther \<Rightarrow> Some (False, tm))"


section \<open>Vocabulary of the statements\<close>

text \<open>A cursor that is a valid index of the flat view, and 0 when the view is empty.\<close>

definition valid_index :: "TaskManager \<Rightarrow> bool" where
  "valid_index tm =
     (if flatView tm = [] then currentIndex tm = 0
      else 0 \<le> currentIndex tm \<and> currentIndex tm < int (length (flatView tm)))"

text \<open>The row that \<open>sql_insert\<close> adds.\<close>

definition new_row :: "Env \<Rightarrow> string \<Rightarrow> int \<Rightarrow> int option \<Rightarrow> DB \<Rightarrow> row" where
  "new_row env ttl p par d =
     \<lparr>row_id = next_id d, row_title = ttl, row_priority = p, row_created_at = now env,
      row_parent_id = par\<rparr>"

text \<open>
  The pre-order walk in the words of the specification: a node, and then, only if it is
  expanded and has a child, the walks of its children in their order.
\<close>

fun preorder :: "Task \<Rightarrow> Task list" where
  "preorder (Task n ttl p c par ch e) =
     Task n ttl p c par ch e # (if e \<and> ch \<noteq> [] then concat (map preorder ch) else [])"

definition preorder_forest :: "Task list \<Rightarrow> Task list" where
  "preorder_forest ts = concat (map preorder ts)"

text \<open>
  The order of siblings: priority descending, and among equal priorities by the
  \<open>CreatedAt\<close> that the nodes carry, ascending. \<open>in_order a b\<close> says that \<open>a\<close> may stand
  before \<open>b\<close>.
\<close>

definition in_order :: "Task \<Rightarrow> Task \<Rightarrow> bool" where
  "in_order a b =
     (Priority b < Priority a
      \<or> (Priority a = Priority b \<and> \<not> Before (CreatedAt b) (CreatedAt a)))"

definition ordered :: "Task list \<Rightarrow> bool" where
  "ordered ts = sorted_wrt in_order ts"

fun sorted_tree :: "Task \<Rightarrow> bool" where
  "sorted_tree (Task n ttl p c par ch e) = (ordered ch \<and> list_all sorted_tree ch)"

definition sorted_forest :: "Task list \<Rightarrow> bool" where
  "sorted_forest ts = (ordered ts \<and> list_all sorted_tree ts)"

text \<open>What holds of the forest and the flat view in every state the program reaches.\<close>

definition view_inv :: "TaskManager \<Rightarrow> bool" where
  "view_inv tm = (sorted_forest (tasks tm) \<and> flatView tm = preorder_forest (tasks tm))"

text \<open>
  All nodes of a tree, collapsed or not, and the record a node was made from.
\<close>

fun nodes :: "Task \<Rightarrow> Task list" where
  "nodes (Task n ttl p c par ch e) = Task n ttl p c par ch e # concat (map nodes ch)"

definition forest_nodes :: "Task list \<Rightarrow> Task list" where
  "forest_nodes ts = concat (map nodes ts)"

definition row_of :: "Task \<Rightarrow> row" where
  "row_of t =
     \<lparr>row_id = ID t, row_title = Title t, row_priority = Priority t, row_created_at = CreatedAt t,
      row_parent_id = ParentID t\<rparr>"

text \<open>
  The same task with the other expansion state; what a toggle at row \<open>c\<close> does to the
  flat view (the row stays where it is, with the flag turned, and the length changes by
  the rows of its children); and a tree in which no node with children is collapsed.
\<close>

definition flip_expanded :: "Task \<Rightarrow> Task" where
  "flip_expanded t =
     Task (ID t) (Title t) (Priority t) (CreatedAt t) (ParentID t) (Children t) (\<not> IsExpanded t)"

definition toggled_view :: "Task list \<Rightarrow> Task list \<Rightarrow> nat \<Rightarrow> bool" where
  "toggled_view before after c =
     (c < length after \<and> after ! c = flip_expanded (before ! c)
      \<and> length after + (if IsExpanded (before ! c) then length (preorder_forest (Children (before ! c))) else 0)
        = length before + (if IsExpanded (before ! c) then 0 else length (preorder_forest (Children (before ! c)))))"

fun fully_open :: "Task \<Rightarrow> bool" where
  "fully_open (Task n ttl p c par ch e) = ((e \<or> ch = []) \<and> list_all fully_open ch)"

text \<open>
  For the proof that the builder's trees are the pointer structure of \<open>loadTasks\<close>:
  \<open>below rows a x\<close> says that the record \<open>x\<close> hangs, at some depth, below the id \<open>a\<close>;
  \<open>builder_inv\<close> is what holds at every call of \<open>build_nodes\<close>, with \<open>A\<close> the ids of the
  nodes above the call.
\<close>

inductive below :: "row list \<Rightarrow> int \<Rightarrow> row \<Rightarrow> bool" for rows0 :: "row list" where
  child: "x \<in> set rows0 \<Longrightarrow> row_parent_id x = Some a \<Longrightarrow> below rows0 a x"
| step: "below rows0 a y \<Longrightarrow> x \<in> set rows0 \<Longrightarrow> row_parent_id x = Some (row_id y) \<Longrightarrow> below rows0 a x"

definition builder_inv :: "row list \<Rightarrow> int set \<Rightarrow> row list \<Rightarrow> row list \<Rightarrow> bool" where
  "builder_inv rows0 A rows rs =
     (rows = filter (\<lambda>x. \<forall>a\<in>A. row_parent_id x \<noteq> Some a) rows0
      \<and> set rs \<subseteq> set rows0 \<and> distinct rs
      \<and> (\<forall>w\<in>set rs. row_id w \<notin> A \<and> (row_parent_id w = None \<or> row_parent_id w \<in> Some ` A))
      \<and> (\<forall>a\<in>A. \<exists>x\<in>set rows0. row_id x = a \<and> (row_parent_id x = None \<or> row_parent_id x \<in> Some ` A)))"

definition closed_ids :: "row list \<Rightarrow> int set \<Rightarrow> bool" where
  "closed_ids rows0 A =
     (\<forall>a\<in>A. \<exists>x\<in>set rows0. row_id x = a \<and> (row_parent_id x = None \<or> row_parent_id x \<in> Some ` A))"

text \<open>
  The ids of the table are distinct (the primary key) and so are the ids of the nodes of
  the forest.
\<close>

definition ids_inv :: "TaskManager \<Rightarrow> bool" where
  "ids_inv tm =
     (distinct (map row_id (table (db tm))) \<and> distinct (map ID (forest_nodes (tasks tm))))"

section \<open>Concrete states\<close>

text \<open>
  A store with a chain of three tasks (3 below 2 below 1), created ten seconds one after
  the other, a terminal of 24 lines, and the manager that \<open>NewTaskManager\<close> builds from
  them.
\<close>

definition at_second :: "nat \<Rightarrow> datetime" where
  "at_second n = \<lparr>year = 2024, month = 5, day = 17, hour = 9, minute = 30, second = n\<rparr>"

definition env24 :: Env where
  "env24 = \<lparr>height = 24, now = at_second 40, parse_layout = (\<lambda>s. None)\<rparr>"

definition file3 :: DB where
  "file3 =
     \<lparr>table =
        [\<lparr>row_id = 1, row_title = ''Plan'', row_priority = 50, row_created_at = at_second 10, row_parent_id = None\<rparr>,
         \<lparr>row_id = 2, row_title = ''Draft'', row_priority = 50, row_created_at = at_second 20, row_parent_id = Some 1\<rparr>,
         \<lparr>row_id = 3, row_title = ''Review'', row_priority = 70, row_created_at = at_second 30, row_parent_id = Some 2\<rparr>],
      seq = 3, foreign_keys = False, fault = None, issued = []\<rparr>"

definition task3 :: Task where
  "task3 = Task 3 ''Review'' 70 zero_time (Some 2) [] True"

definition task2 :: Task where
  "task2 = Task 2 ''Draft'' 50 zero_time (Some 1) [task3] True"

definition task1 :: Task where
  "task1 = Task 1 ''Plan'' 50 zero_time None [task2] True"

definition tm3 :: TaskManager where
  "tm3 =
     \<lparr>db = file3\<lparr>issued := [CreateTable, SelectAll]\<rparr>, tasks = [task1], currentIndex = 0,
      scrollOffset = 0, flatView = [task1, task2, task3], editMode = False, editBuffer = [],
      statusMsg = [], inputMode = [], inputStep = 0, inputTitle = [], inputPriority = []\<rparr>"

text \<open>The chain of three with task 2 collapsed and the cursor on task 1.\<close>

definition task2c :: Task where
  "task2c = Task 2 ''Draft'' 50 zero_time (Some 1) [task3] False"

definition task1c :: Task where
  "task1c = Task 1 ''Plan'' 50 zero_time None [task2c] True"

definition tm3c :: TaskManager where
  "tm3c = tm3\<lparr>tasks := [task1c], flatView := [task1c, task2c]\<rparr>"

text \<open>
  Two tasks, a record whose parent is not in the table, and a record below that one.
\<close>

definition rows_with_orphan :: "row list" where
  "rows_with_orphan =
     [\<lparr>row_id = 1, row_title = ''Plan'', row_priority = 50, row_created_at = at_second 10, row_parent_id = None\<rparr>,
      \<lparr>row_id = 2, row_title = ''Draft'', row_priority = 50, row_created_at = at_second 20, row_parent_id = Some 1\<rparr>,
      \<lparr>row_id = 5, row_title = ''Lost'', row_priority = 90, row_created_at = at_second 30, row_parent_id = Some 9\<rparr>,
      \<lparr>row_id = 6, row_title = ''Lost too'', row_priority = 95, row_created_at = at_second 35, row_parent_id = Some 5\<rparr>]"

text \<open>
  A store with two tasks of one priority and no parent, task 1 created ten seconds
  before task 2, and the loop of \<open>loadTasks\<close> over \<open>taskMap\<close> coming to task 2 first (Go
  fixes no order for the walk over a map).
\<close>

definition file_tie :: DB where
  "file_tie =
     \<lparr>table =
        [\<lparr>row_id = 2, row_title = ''Later'', row_priority = 50, row_created_at = at_second 20, row_parent_id = None\<rparr>,
         \<lparr>row_id = 1, row_title = ''Earlier'', row_priority = 50, row_created_at = at_second 10, row_parent_id = None\<rparr>],
      seq = 2, foreign_keys = False, fault = None, issued = []\<rparr>"



text \<open>An empty store and the manager started on it.\<close>

definition file0 :: DB where
  "file0 = \<lparr>table = [], seq = 0, foreign_keys = False, fault = None, issued = []\<rparr>"

definition tm0 :: TaskManager where
  "tm0 =
     \<lparr>db = file0\<lparr>issued := [CreateTable, SelectAll]\<rparr>, tasks = [], currentIndex = 0,
      scrollOffset = 0, flatView = [], editMode = False, editBuffer = [],
      statusMsg = [], inputMode = [], inputStep = 0, inputTitle = [], inputPriority = []\<rparr>"

section \<open>What \<open>loadTasks\<close> reads of the creation time\<close>

text \<open>
  The text that \<open>Scan\<close> writes has no space in it, so \<open>time.Parse\<close> fails on it whatever
  the time is, and every record that \<open>loadTasks\<close> reads carries the zero time.
\<close>

lemma digits_chars: "set (digits n) \<subseteq> set ''0123456789''"
proof (induction n rule: digits.induct)
  case (1 n)
  have a: "k < 10 \<Longrightarrow> ''0123456789'' ! k \<in> set ''0123456789''" for k :: nat
    by (rule nth_mem) simp
  have "n mod 10 < 10"
    by simp
  with a have b: "''0123456789'' ! (n mod 10) \<in> set ''0123456789''" .
  show ?case
  proof (cases "n < 10")
    case True
    with a [of n] show ?thesis
      by (subst digits.simps) simp
  next
    case False
    with 1 b show ?thesis
      by (subst digits.simps) simp
  qed
qed

lemma digits_no_space: "CHR '' '' \<notin> set (digits n)"
  using digits_chars [of n] by auto

lemma pad_no_space: "CHR '' '' \<notin> set (pad w n)"
  by (simp add: pad_def digits_no_space)

lemma scan_datetime_no_space: "CHR '' '' \<notin> set (scan_datetime t)"
  by (simp add: scan_datetime_def pad_no_space)

lemma time_Parse_scan_datetime [simp]: "time_Parse env (scan_datetime t) = None"
proof -
  have "scan_datetime t ! 10 \<noteq> CHR '' ''" if "10 < length (scan_datetime t)"
    using nth_mem [OF that] scan_datetime_no_space [of t] by metis
  then show ?thesis
    by (auto simp: time_Parse_def)
qed

lemma scan_row_zero [simp]: "scan_row env r = r\<lparr>row_created_at := zero_time\<rparr>"
  by (simp add: scan_row_def)

lemma row_id_scan_row [simp]: "row_id \<circ> scan_row env = row_id"
  by (simp add: fun_eq_iff)

lemma row_parent_id_scan_row [simp]: "row_parent_id \<circ> scan_row env = row_parent_id"
  by (simp add: fun_eq_iff)

section \<open>The store and the fields a command leaves alone\<close>

lemma SplitN_colon_none: "CHR '':'' \<notin> set s \<Longrightarrow> SplitN_colon s = [s]"
  by (simp add: SplitN_colon_def)

lemma SplitN_colon_some:
  "CHR '':'' \<in> set s \<Longrightarrow>
   SplitN_colon s = [takeWhile (\<lambda>c. c \<noteq> CHR '':'') s, tl (dropWhile (\<lambda>c. c \<noteq> CHR '':'') s)]"
  by (simp add: SplitN_colon_def)

lemma at_index_selectable:
  "selectable tm \<Longrightarrow> 0 \<le> currentIndex tm \<Longrightarrow>
   at_index (flatView tm) (currentIndex tm) = Some (flatView tm ! nat (currentIndex tm))"
  by (simp add: selectable_def at_index_def)

lemma loadTasks_db: "db (snd (loadTasks env tm)) = log_stmt SelectAll (db tm)"
  by (simp add: loadTasks_def sql_select_all_def Let_def split: option.splits)

lemma loadTasks_statusMsg [simp]: "statusMsg (snd (loadTasks env tm)) = statusMsg tm"
  by (simp add: loadTasks_def sql_select_all_def Let_def split: option.splits)

lemma adjustScroll_db [simp]: "db (adjustScroll env tm) = db tm"
  by (simp add: adjustScroll_def Let_def)

lemma adjustScroll_statusMsg [simp]: "statusMsg (adjustScroll env tm) = statusMsg tm"
  by (simp add: adjustScroll_def Let_def)

lemma rebuildFlatView_db [simp]: "db (rebuildFlatView env tm) = db tm"
  by (simp add: rebuildFlatView_def Let_def)

lemma rebuildFlatView_statusMsg [simp]: "statusMsg (rebuildFlatView env tm) = statusMsg tm"
  by (simp add: rebuildFlatView_def Let_def)

lemma clear_input_fields [simp]:
  "db (clear_input tm) = db tm" "statusMsg (clear_input tm) = statusMsg tm"
  by (simp_all add: clear_input_def)

lemma updateTask_db:
  "fault (db tm) = None \<Longrightarrow>
   db (snd (updateTask env i ttl p tm))
     = (db tm)\<lparr>table := map (\<lambda>r. if row_id r = i then r\<lparr>row_title := ttl, row_priority := p\<rparr> else r)
                            (table (db tm)),
                issued := issued (db tm) @ [Update i ttl p, SelectAll]\<rparr>"
  by (simp add: updateTask_def sql_update_def loadTasks_db log_stmt_def Let_def)

lemma addTask_ok:
  assumes "fault (db tm) = None" and "\<not> foreign_keys (db tm)"
  shows "fst (addTask env ttl p par tm) = None"
    and "db (snd (addTask env ttl p par tm))
      = (db tm)\<lparr>table := table (db tm) @ [new_row env ttl p par (db tm)],
                 seq := next_id (db tm),
                 issued := issued (db tm) @ [Insert ttl p par, SelectAll]\<rparr>"
    and "statusMsg (snd (addTask env ttl p par tm))
      = ''Added task: '' @ ttl @ '' (ID: '' @ itoa (next_id (db tm)) @ '')''"
  using assms
  by (simp_all add: addTask_def sql_insert_def loadTasks_db log_stmt_def Let_def next_id_def new_row_def)

lemma creation_priority_fallback:
  "s = [] \<or> Atoi s = None \<or> (\<exists>p. Atoi s = Some p \<and> (p < 1 \<or> 100 < p)) \<Longrightarrow> creation_priority s = 50"
  by (auto simp: creation_priority_def)

lemma edit_priority_fallback:
  "Atoi (TrimSpace s) = None \<Longrightarrow> edit_priority task s = max 1 (min 100 (Priority task))"
  by (simp add: edit_priority_def Let_def)

text \<open>The concrete manager is the one the program starts with on the concrete store.\<close>

lemma tm3_started: "NewTaskManager env24 file3 = Inr tm3"
  by (simp add: NewTaskManager_def initDB_def loadTasks_def sql_select_all_def log_stmt_def
      file3_def buildHierarchy_def sortTasks_def rebuildFlatView_def adjustScroll_def env24_def
      tm3_def task1_def task2_def task3_def Let_def)

lemma trim_30: "TrimSpace '' 30 '' = ''30''"
  by (simp add: TrimSpace_def space_width_def space_runes_def)

lemma atoi_30: "Atoi ''30'' = Some 30"
  by (simp add: Atoi_def is_digit_def digits_value_def)

lemma atoi_examples:
  "Atoi ''abc'' = None" "Atoi ''200'' = Some 200" "Atoi ''high'' = None"
  by (simp_all add: Atoi_def is_digit_def digits_value_def)

lemma trim_examples: "TrimSpace ''Plan'' = ''Plan''" "TrimSpace '' high'' = ''high''"
  by (simp_all add: TrimSpace_def space_width_def space_runes_def)

lemma tm0_started: "NewTaskManager env24 file0 = Inr tm0"
  by (simp add: NewTaskManager_def initDB_def loadTasks_def sql_select_all_def log_stmt_def
      file0_def buildHierarchy_def sortTasks_def rebuildFlatView_def adjustScroll_def env24_def
      tm0_def Let_def)

lemma rune_eval [simp]:
  "rune CHR ''q'' = 113" "rune CHR ''j'' = 106" "rune CHR ''k'' = 107" "rune CHR ''J'' = 74"
  "rune CHR ''K'' = 75" "rune CHR ''g'' = 103" "rune CHR ''G'' = 71" "rune CHR ''a'' = 97"
  "rune CHR ''s'' = 115" "rune CHR ''d'' = 100" "rune CHR ''e'' = 101"
  by (simp_all add: rune_def)

section \<open>The flat view is the pre-order walk of a sorted forest\<close>

lemma preorder_unfold:
  "preorder t = t # (if IsExpanded t \<and> 0 < length (Children t) then preorder_forest (Children t) else [])"
  by (cases t) (simp add: preorder_forest_def)

lemma preorder_forest_simps [simp]:
  "preorder_forest [] = []"
  "preorder_forest (t # ts) = preorder t @ preorder_forest ts"
  by (simp_all add: preorder_forest_def)

lemma buildFlatView_preorder: "buildFlatView ts depth fv = fv @ preorder_forest ts"
proof (induction ts depth fv rule: buildFlatView.induct)
  case (1 depth fv)
  show ?case by simp
next
  case (2 task tasks depth fv)
  show ?case
  proof (cases "IsExpanded task \<and> 0 < length (Children task)")
    case True
    with 2 show ?thesis
      by (simp add: preorder_unfold [of task])
  next
    case False
    with 2 show ?thesis
      by (simp add: preorder_unfold [of task])
  qed
qed

lemma in_order_trans: "in_order a b \<Longrightarrow> in_order b c \<Longrightarrow> in_order a c"
  by (auto simp: in_order_def Before_def not_less)

lemma less_task_in_order: "less_task a b \<Longrightarrow> in_order a b"
  by (auto simp: less_task_def in_order_def Before_def split: if_splits)

lemma not_less_task_in_order: "\<not> less_task a b \<Longrightarrow> in_order b a"
  by (auto simp: less_task_def in_order_def Before_def split: if_splits)

lemma set_insert_task [simp]: "set (insert_task x ys) = insert x (set ys)"
  by (induction ys) auto

lemma ordered_insert_task: "ordered ys \<Longrightarrow> ordered (insert_task x ys)"
proof (induction ys)
  case Nil
  show ?case by (simp add: ordered_def)
next
  case (Cons y ys)
  show ?case
  proof (cases "less_task y x")
    case False
    then have xy: "in_order x y"
      by (rule not_less_task_in_order)
    have "\<forall>z\<in>set ys. in_order x z"
      using Cons.prems xy by (auto simp: ordered_def intro: in_order_trans)
    with False xy Cons.prems show ?thesis
      by (simp add: ordered_def)
  next
    case True
    then have "in_order y x"
      by (rule less_task_in_order)
    with True Cons show ?thesis
      by (auto simp: ordered_def)
  qed
qed

lemma set_sortTasks [simp]: "set (sortTasks ts) = set ts"
  unfolding sortTasks_def by (induction ts) auto

lemma ordered_sortTasks: "ordered (sortTasks ts)"
  unfolding sortTasks_def by (induction ts) (auto simp: ordered_def [of "[]"] intro: ordered_insert_task)

lemma list_all_sortTasks [simp]: "list_all P (sortTasks ts) = list_all P ts"
  by (simp add: list_all_iff)

lemma sorted_build_nodes: "list_all sorted_tree (build_nodes rows rs)"
  by (induction rows rs rule: build_nodes.induct) (simp_all add: ordered_sortTasks)

lemma sorted_buildHierarchy: "sorted_forest (buildHierarchy rows)"
  by (simp add: sorted_forest_def buildHierarchy_def ordered_sortTasks sorted_build_nodes)

lemma toggle_fields [simp]:
  "ID (toggle i t) = ID t" "Priority (toggle i t) = Priority t" "CreatedAt (toggle i t) = CreatedAt t"
  "Title (toggle i t) = Title t" "ParentID (toggle i t) = ParentID t"
  "Children (toggle i t) = map (toggle i) (Children t)"
  by (cases t; simp)+

lemma in_order_toggle [simp]: "in_order (toggle i a) (toggle i b) = in_order a b"
  by (simp add: in_order_def)

lemma ordered_toggle [simp]: "ordered (map (toggle i) ts) = ordered ts"
  by (simp add: ordered_def sorted_wrt_map)

lemma sorted_tree_toggle [simp]: "sorted_tree (toggle i t) = sorted_tree t"
  by (induction t) (simp add: list_all_iff)

lemma sorted_forest_toggle: "sorted_forest (map (toggle i) ts) = sorted_forest ts"
  by (simp add: sorted_forest_def list_all_iff)


lemma adjustScroll_view [simp]:
  "tasks (adjustScroll env tm) = tasks tm" "flatView (adjustScroll env tm) = flatView tm"
  "currentIndex (adjustScroll env tm) = currentIndex tm"
  by (simp_all add: adjustScroll_def Let_def)

lemma view_inv_adjustScroll [simp]: "view_inv (adjustScroll env tm) = view_inv tm"
  by (simp add: view_inv_def)

lemma rebuildFlatView_view [simp]:
  "tasks (rebuildFlatView env tm) = tasks tm"
  "flatView (rebuildFlatView env tm) = preorder_forest (tasks tm)"
  by (simp_all add: rebuildFlatView_def Let_def buildFlatView_preorder)

lemma view_inv_rebuildFlatView: "view_inv (rebuildFlatView env tm) = sorted_forest (tasks tm)"
  by (simp add: view_inv_def)

lemma sorted_loadTasks: "sorted_forest (tasks tm) \<Longrightarrow> sorted_forest (tasks (snd (loadTasks env tm)))"
  by (auto simp: loadTasks_def sorted_buildHierarchy split: prod.splits sum.splits)

lemma view_inv_reload:
  "view_inv tm \<Longrightarrow> view_inv (rebuildFlatView env (snd (loadTasks env (tm\<lparr>db := d, statusMsg := m\<rparr>))))"
  by (simp add: view_inv_rebuildFlatView sorted_loadTasks view_inv_def)

lemma view_inv_fields [simp]:
  "view_inv (tm\<lparr>db := d\<rparr>) = view_inv tm"
  "view_inv (tm\<lparr>currentIndex := c\<rparr>) = view_inv tm"
  "view_inv (tm\<lparr>scrollOffset := c\<rparr>) = view_inv tm"
  "view_inv (tm\<lparr>statusMsg := m\<rparr>) = view_inv tm"
  "view_inv (tm\<lparr>editMode := b\<rparr>) = view_inv tm"
  "view_inv (tm\<lparr>editBuffer := m\<rparr>) = view_inv tm"
  "view_inv (tm\<lparr>inputMode := m\<rparr>) = view_inv tm"
  "view_inv (tm\<lparr>inputStep := c\<rparr>) = view_inv tm"
  "view_inv (tm\<lparr>inputTitle := m\<rparr>) = view_inv tm"
  "view_inv (tm\<lparr>inputPriority := m\<rparr>) = view_inv tm"
  by (simp_all add: view_inv_def)

lemma view_inv_addTask: "view_inv tm \<Longrightarrow> view_inv (snd (addTask env ttl p par tm))"
  by (simp add: addTask_def view_inv_reload split: prod.splits sum.splits)

lemma view_inv_deleteTask: "view_inv tm \<Longrightarrow> view_inv (snd (deleteTask env i tm))"
  by (simp add: deleteTask_def view_inv_reload split: prod.splits option.splits)

lemma view_inv_updateTask: "view_inv tm \<Longrightarrow> view_inv (snd (updateTask env i ttl p tm))"
  by (simp add: updateTask_def view_inv_reload split: prod.splits option.splits)

lemma view_inv_updateTaskPriority: "view_inv tm \<Longrightarrow> view_inv (snd (updateTaskPriority env i c tm))"
  by (simp add: updateTaskPriority_def Let_def view_inv_reload split: prod.splits option.splits sum.splits)

lemma view_inv_toggle:
  "view_inv tm \<Longrightarrow> view_inv (rebuildFlatView env (tm\<lparr>tasks := map (toggle i) (tasks tm)\<rparr>))"
  by (simp add: view_inv_rebuildFlatView sorted_forest_toggle view_inv_def)

lemma view_inv_normal_key:
  "view_inv tm \<Longrightarrow> normal_key env k tm = Some (quit, tm') \<Longrightarrow> view_inv tm'"
  by (cases k)
     (auto simp: normal_key_def scrollHalfPageDown_def scrollHalfPageUp_def Let_def view_inv_toggle
        split: if_splits option.splits)

lemma view_inv_normal_ch:
  "view_inv tm \<Longrightarrow> normal_ch env ch tm = Some (quit, tm') \<Longrightarrow> view_inv tm'"
  unfolding normal_ch_def
  by (auto simp: view_inv_updateTaskPriority view_inv_deleteTask split: if_splits option.splits)

lemma view_inv_handleNormalMode:
  assumes "view_inv tm" and "handleNormalMode env k ch tm = Some (quit, tm')"
  shows "view_inv tm'"
proof (cases "normal_key env k (tm\<lparr>statusMsg := []\<rparr>)")
  case None
  with assms(2) show ?thesis
    by (simp add: handleNormalMode_def)
next
  case (Some r)
  obtain q1 tm1 where r: "r = (q1, tm1)"
    by (cases r)
  from assms(1) have "view_inv (tm\<lparr>statusMsg := []\<rparr>)"
    by simp
  moreover from Some r have "normal_key env k (tm\<lparr>statusMsg := []\<rparr>) = Some (q1, tm1)"
    by simp
  ultimately have inv1: "view_inv tm1"
    by (rule view_inv_normal_key)
  show ?thesis
  proof (cases q1)
    case True
    with assms(2) Some r inv1 show ?thesis
      by (simp add: handleNormalMode_def)
  next
    case False
    with assms(2) Some r have "normal_ch env ch tm1 = Some (quit, tm')"
      by (simp add: handleNormalMode_def)
    with inv1 show ?thesis
      by (rule view_inv_normal_ch)
  qed
qed

lemma view_inv_clear_input [simp]: "view_inv (clear_input tm) = view_inv tm"
  by (simp add: clear_input_def)

lemma view_inv_after_add: "view_inv (snd r) \<Longrightarrow> view_inv (after_add r)"
  by (cases r) (auto simp: after_add_def split: option.splits error.splits)

lemma view_inv_handleInputMode:
  "view_inv tm \<Longrightarrow> handleInputMode env k ch tm = Some (quit, tm') \<Longrightarrow> view_inv tm'"
  by (cases k)
     (auto simp: handleInputMode_def append_input_def Let_def view_inv_after_add view_inv_addTask
        split: if_splits option.splits)

lemma view_inv_handleEditMode:
  "view_inv tm \<Longrightarrow> handleEditMode env k ch tm = Some (quit, tm') \<Longrightarrow> view_inv tm'"
  by (cases k)
     (auto simp: handleEditMode_def view_inv_updateTask split: if_splits option.splits list.splits)

lemma view_inv_handleInput:
  "view_inv tm \<Longrightarrow> handleInput env ev tm = Some (quit, tm') \<Longrightarrow> view_inv tm'"
  by (cases ev)
     (auto simp: handleInput_def split: if_splits
        dest: view_inv_handleEditMode view_inv_handleInputMode view_inv_handleNormalMode)

lemma sorted_forest_Nil [simp]: "sorted_forest []"
  by (simp add: sorted_forest_def ordered_def)

lemma view_inv_NewTaskManager: "NewTaskManager env file = Inr tm \<Longrightarrow> view_inv tm"
  by (auto simp: NewTaskManager_def view_inv_rebuildFlatView sorted_loadTasks
      split: prod.splits option.splits)

text \<open>
  The flattener, on every forest: the flat view that \<open>rebuildFlatView\<close> leaves is the
  pre-order walk of \<open>tm.tasks\<close> in which the children of a collapsed node are skipped
  and the node itself stays. The tree builder, on every set of records: the roots and
  the children of every node are in order of priority descending, and among equal
  priorities in the order of the \<open>CreatedAt\<close> that the nodes carry. Both hold together
  (\<open>view_inv\<close>) of the manager the program starts with and of the manager after every
  event that it handles.
\<close>

lemma flat_view_walk_of_sorted_forest:
  "flatView (rebuildFlatView env tm) = preorder_forest (tasks tm)
   \<and> sorted_forest (buildHierarchy rows)
   \<and> (\<forall>tm0. NewTaskManager env disk = Inr tm0 \<longrightarrow> view_inv tm0)
   \<and> (\<forall>quit tm'. view_inv tm \<and> handleInput env ev tm = Some (quit, tm') \<longrightarrow> view_inv tm')"
proof (intro conjI allI impI)
  show "flatView (rebuildFlatView env tm) = preorder_forest (tasks tm)"
    by simp
  show "sorted_forest (buildHierarchy rows)"
    by (rule sorted_buildHierarchy)
next
  fix tm0
  assume "NewTaskManager env disk = Inr tm0"
  then show "view_inv tm0"
    by (rule view_inv_NewTaskManager)
next
  fix quit tm'
  assume "view_inv tm \<and> handleInput env ev tm = Some (quit, tm')"
  then show "view_inv tm'"
    by (auto dest: view_inv_handleInput)
qed

section \<open>The tree builder\<close>

lemma nodes_unfold: "nodes t = t # forest_nodes (Children t)"
  by (cases t) (simp add: forest_nodes_def)

lemma forest_nodes_simps [simp]:
  "forest_nodes [] = []"
  "forest_nodes (t # ts) = nodes t @ forest_nodes ts"
  by (simp_all add: forest_nodes_def)

lemma set_forest_nodes: "set (forest_nodes ts) = (\<Union>t\<in>set ts. set (nodes t))"
  by (simp add: forest_nodes_def)

lemma set_forest_nodes_sortTasks [simp]: "set (forest_nodes (sortTasks ts)) = set (forest_nodes ts)"
  by (simp add: set_forest_nodes)

lemma set_preorder_nodes: "set (preorder t) \<subseteq> set (nodes t)"
  by (induction t) auto

lemma set_preorder_forest_nodes: "set (preorder_forest ts) \<subseteq> set (forest_nodes ts)"
  using set_preorder_nodes by (fastforce simp: preorder_forest_def forest_nodes_def)

lemma row_of_Task [simp]:
  "row_of (Task (row_id r) (row_title r) (row_priority r) (row_created_at r) (row_parent_id r) ch e) = r"
  by (simp add: row_of_def)

text \<open>
  Every node that the builder makes is one of the rows it started from, or a row that
  names another row as its parent.
\<close>

lemma build_nodes_origin:
  "t \<in> set (forest_nodes (build_nodes rows rs)) \<Longrightarrow>
   row_of t \<in> set rs
   \<or> (row_of t \<in> set rows \<and> (\<exists>m\<in>set rs \<union> set rows. row_parent_id (row_of t) = Some (row_id m)))"
proof (induction rows rs arbitrary: t rule: build_nodes.induct)
  case (1 rows)
  then show ?case by simp
next
  case (2 rows r rs)
  let ?kids = "filter (\<lambda>x. row_parent_id x = Some (row_id r)) rows"
  let ?rest = "filter (\<lambda>x. row_parent_id x \<noteq> Some (row_id r)) rows"
  let ?node = "Task (row_id r) (row_title r) (row_priority r) (row_created_at r) (row_parent_id r)
       (sortTasks (build_nodes ?rest ?kids)) True"
  from "2.prems" have "t = ?node \<or> t \<in> set (forest_nodes (build_nodes ?rest ?kids))
      \<or> t \<in> set (forest_nodes (build_nodes rows rs))"
    by (auto simp: set_forest_nodes)
  then show ?case
  proof (elim disjE)
    assume "t = ?node"
    then show ?thesis by simp
  next
    assume "t \<in> set (forest_nodes (build_nodes ?rest ?kids))"
    from "2.IH"(1) [OF this] show ?thesis
      by auto
  next
    assume "t \<in> set (forest_nodes (build_nodes rows rs))"
    from "2.IH"(2) [OF this] show ?thesis
      by auto
  qed
qed

lemma buildHierarchy_origin:
  assumes "t \<in> set (forest_nodes (buildHierarchy rows))"
  shows "row_of t \<in> set rows
    \<and> (row_parent_id (row_of t) = None \<or> (\<exists>m\<in>set rows. row_parent_id (row_of t) = Some (row_id m)))"
  using build_nodes_origin [of t rows "filter (\<lambda>r. row_parent_id r = None) rows"] assms
  by (auto simp: buildHierarchy_def)

lemma row_of_build_nodes [simp]: "map row_of (build_nodes rows rs) = rs"
  by (induction rows rs rule: build_nodes.induct) simp_all

lemma roots_buildHierarchy:
  "row_of ` set (buildHierarchy rows) = {r \<in> set rows. row_parent_id r = None}"
proof -
  have "row_of ` set (build_nodes rows rs) = set rs" for rs
    by (simp only: set_map [symmetric] row_of_build_nodes)
  then show ?thesis
    by (auto simp: buildHierarchy_def)
qed

lemma rows_with_orphan_forest:
  "buildHierarchy rows_with_orphan
     = [Task 1 ''Plan'' 50 (at_second 10) None [Task 2 ''Draft'' 50 (at_second 20) (Some 1) [] True] True]"
  by (simp add: rows_with_orphan_def buildHierarchy_def sortTasks_def)

text \<open>
  With distinct ids in the table (the primary key), the trees of \<open>build_nodes\<close> are what
  the loops of \<open>loadTasks\<close> build: the children of every node are exactly the records
  that name its id as parent, and no record is used twice.
\<close>

lemma mset_insert_task [simp]: "mset (insert_task x ys) = add_mset x (mset ys)"
  by (induction ys) auto

lemma mset_sortTasks [simp]: "mset (sortTasks ts) = mset ts"
  unfolding sortTasks_def by (induction ts) auto

lemma mset_map_sortTasks [simp]: "mset (map f (sortTasks ts)) = mset (map f ts)"
  by (metis mset_map mset_sortTasks)

lemma below_in: "below rows0 a x \<Longrightarrow> x \<in> set rows0"
  by (induction rule: below.induct) auto

lemma below_trans_aux: "below rows0 c x \<Longrightarrow> c = row_id y \<Longrightarrow> below rows0 a y \<Longrightarrow> below rows0 a x"
  by (induction rule: below.induct) (auto intro: below.intros)

lemma below_trans: "below rows0 (row_id y) x \<Longrightarrow> below rows0 a y \<Longrightarrow> below rows0 a x"
  by (rule below_trans_aux) simp_all

lemma same_id:
  "distinct (map row_id rows0) \<Longrightarrow> x \<in> set rows0 \<Longrightarrow> y \<in> set rows0 \<Longrightarrow> row_id x = row_id y \<Longrightarrow> x = y"
  by (simp add: distinct_map inj_on_def)

lemma below_chain:
  assumes "distinct (map row_id rows0)" and "below rows0 a x" and "below rows0 b x"
  shows "a = b \<or> (\<exists>y\<in>set rows0. row_id y = a \<and> below rows0 b y)
       \<or> (\<exists>y\<in>set rows0. row_id y = b \<and> below rows0 a y)"
  using assms(2,3)
proof (induction arbitrary: b rule: below.induct)
  case (child x a)
  from child.prems show ?case
  proof (cases rule: below.cases)
    case child
    with child.hyps show ?thesis by simp
  next
    case (step y)
    with child.hyps have "row_id y = a" by simp
    with step below_in [of rows0 b y] show ?thesis by auto
  qed
next
  case (step a y x)
  from step.prems show ?case
  proof (cases rule: below.cases)
    case child
    with step.hyps have "row_id y = b" by simp
    with step.hyps(1) below_in [of rows0 a y] show ?thesis by auto
  next
    case (step y')
    with step.hyps have "row_id y' = row_id y" by simp
    with assms(1) step(1) step.hyps(1) have "y' = y"
      by (auto intro: same_id below_in)
    with step(1) step.IH show ?thesis by simp
  qed
qed

lemma below_closed:
  assumes "distinct (map row_id rows0)" and "closed_ids rows0 A"
  shows "below rows0 i y \<Longrightarrow> row_id y \<in> A \<Longrightarrow> i \<in> A"
proof (induction rule: below.induct)
  case (child x a)
  from assms(2) child.prems obtain z where z: "z \<in> set rows0" "row_id z = row_id x"
    "row_parent_id z = None \<or> row_parent_id z \<in> Some ` A"
    unfolding closed_ids_def by blast
  with assms(1) child.hyps have "z = x"
    by (auto intro: same_id)
  with z child.hyps show ?case by auto
next
  case (step a y x)
  from assms(2) step.prems obtain z where z: "z \<in> set rows0" "row_id z = row_id x"
    "row_parent_id z = None \<or> row_parent_id z \<in> Some ` A"
    unfolding closed_ids_def by blast
  with assms(1) step.hyps have "z = x"
    by (auto intro: same_id)
  with z step.hyps have "row_id y \<in> A" by auto
  then show ?case by (rule step.IH)
qed

lemma not_below_head:
  assumes "distinct (map row_id rows0)" and "closed_ids rows0 A"
    and "row_parent_id w = None \<or> row_parent_id w \<in> Some ` A" and "i \<notin> A"
  shows "\<not> below rows0 i w"
proof
  assume "below rows0 i w"
  then show False
  proof (cases rule: below.cases)
    case child
    with assms(3,4) show False by auto
  next
    case (step y)
    with assms(3) have "row_id y \<in> A" by auto
    with below_closed [OF assms(1,2) step(1)] assms(4) show False by simp
  qed
qed

lemma build_nodes_below:
  assumes "set rows \<subseteq> set rows0" and "set rs \<subseteq> set rows0"
    and "t \<in> set (forest_nodes (build_nodes rows rs))"
  shows "row_of t \<in> set rs \<or> (\<exists>w\<in>set rs. below rows0 (row_id w) (row_of t))"
  using assms
proof (induction rows rs arbitrary: t rule: build_nodes.induct)
  case (1 rows)
  then show ?case by simp
next
  case (2 rows r rs)
  let ?kids = "filter (\<lambda>x. row_parent_id x = Some (row_id r)) rows"
  let ?rest = "filter (\<lambda>x. row_parent_id x \<noteq> Some (row_id r)) rows"
  let ?node = "Task (row_id r) (row_title r) (row_priority r) (row_created_at r) (row_parent_id r)
       (sortTasks (build_nodes ?rest ?kids)) True"
  from "2.prems"(3) have "t = ?node \<or> t \<in> set (forest_nodes (build_nodes ?rest ?kids))
      \<or> t \<in> set (forest_nodes (build_nodes rows rs))"
    by (auto simp: set_forest_nodes)
  then show ?case
  proof (elim disjE)
    assume "t = ?node"
    then show ?thesis by simp
  next
    assume t: "t \<in> set (forest_nodes (build_nodes ?rest ?kids))"
    have "set ?rest \<subseteq> set rows0" "set ?kids \<subseteq> set rows0"
      using "2.prems"(1) by auto
    from "2.IH"(1) [OF this t]
    have "row_of t \<in> set ?kids \<or> (\<exists>w\<in>set ?kids. below rows0 (row_id w) (row_of t))" .
    then have "below rows0 (row_id r) (row_of t)"
    proof
      assume "row_of t \<in> set ?kids"
      with "2.prems"(1) show ?thesis
        by (auto intro: below.child)
    next
      assume "\<exists>w\<in>set ?kids. below rows0 (row_id w) (row_of t)"
      then obtain w where w: "w \<in> set ?kids" "below rows0 (row_id w) (row_of t)"
        by blast
      with "2.prems"(1) have "below rows0 (row_id r) w"
        by (auto intro: below.child)
      with w(2) show ?thesis
        by (rule below_trans)
    qed
    then show ?thesis by auto
  next
    assume t: "t \<in> set (forest_nodes (build_nodes rows rs))"
    from "2.prems"(2) have "set rs \<subseteq> set rows0" by simp
    from "2.IH"(2) [OF "2.prems"(1) this t] show ?thesis by auto
  qed
qed


lemma builder_inv_closed: "builder_inv rows0 A rows rs \<Longrightarrow> closed_ids rows0 A"
  by (simp add: builder_inv_def closed_ids_def)

lemma builder_inv_roots:
  "distinct (map row_id rows0) \<Longrightarrow>
   builder_inv rows0 {} rows0 (filter (\<lambda>r. row_parent_id r = None) rows0)"
  by (auto simp: builder_inv_def dest: distinct_map [THEN iffD1])

lemma builder_inv_tail: "builder_inv rows0 A rows (r # rs) \<Longrightarrow> builder_inv rows0 A rows rs"
  by (simp add: builder_inv_def)

lemma builder_inv_kids:
  assumes d0: "distinct (map row_id rows0)" and inv: "builder_inv rows0 A rows (r # rs)"
  shows "builder_inv rows0 (insert (row_id r) A)
           (filter (\<lambda>x. row_parent_id x \<noteq> Some (row_id r)) rows)
           (filter (\<lambda>x. row_parent_id x = Some (row_id r)) rows)"
proof -
  let ?kids = "filter (\<lambda>x. row_parent_id x = Some (row_id r)) rows"
  let ?rest = "filter (\<lambda>x. row_parent_id x \<noteq> Some (row_id r)) rows"
  let ?A = "insert (row_id r) A"
  from inv have rows: "rows = filter (\<lambda>x. \<forall>a\<in>A. row_parent_id x \<noteq> Some a) rows0"
    and r0: "r \<in> set rows0" and rA: "row_id r \<notin> A"
    and rpar: "row_parent_id r = None \<or> row_parent_id r \<in> Some ` A"
    and cl: "\<forall>a\<in>A. \<exists>x\<in>set rows0. row_id x = a \<and> (row_parent_id x = None \<or> row_parent_id x \<in> Some ` A)"
    by (simp_all add: builder_inv_def)
  from d0 have drows0: "distinct rows0"
    by (rule distinct_map [THEN iffD1, THEN conjunct1])
  have a2: "?rest = filter (\<lambda>x. \<forall>a\<in>?A. row_parent_id x \<noteq> Some a) rows0"
    unfolding rows by (auto intro!: filter_cong)
  have a3: "set ?kids \<subseteq> set rows0"
    unfolding rows by auto
  have a3': "distinct ?kids"
    unfolding rows using drows0 by simp
  have a4: "\<forall>w\<in>set ?kids. row_id w \<notin> ?A \<and> (row_parent_id w = None \<or> row_parent_id w \<in> Some ` ?A)"
  proof
    fix w
    assume w: "w \<in> set ?kids"
    then have wp: "row_parent_id w = Some (row_id r)" and w0: "w \<in> set rows0"
      using a3 by auto
    have "row_id w \<noteq> row_id r"
    proof
      assume "row_id w = row_id r"
      with d0 w0 r0 have "w = r"
        by (auto intro: same_id)
      with wp rpar rA show False
        by auto
    qed
    moreover have "row_id w \<notin> A"
    proof
      assume "row_id w \<in> A"
      with cl obtain x where x: "x \<in> set rows0" "row_id x = row_id w"
        "row_parent_id x = None \<or> row_parent_id x \<in> Some ` A"
        by blast
      with d0 w0 have "x = w"
        by (auto intro: same_id)
      with x wp rA show False
        by auto
    qed
    ultimately show "row_id w \<notin> ?A \<and> (row_parent_id w = None \<or> row_parent_id w \<in> Some ` ?A)"
      using wp by simp
  qed
  have a5: "\<forall>a\<in>?A. \<exists>x\<in>set rows0. row_id x = a \<and> (row_parent_id x = None \<or> row_parent_id x \<in> Some ` ?A)"
    using cl r0 rpar by (auto 4 3)
  from a2 a3 a3' a4 a5 show ?thesis
    unfolding builder_inv_def by blast
qed

lemma builder_inv_kids_all:
  assumes "builder_inv rows0 A rows (r # rs)"
  shows "filter (\<lambda>x. row_parent_id x = Some (row_id r)) rows
       = filter (\<lambda>x. row_parent_id x = Some (row_id r)) rows0"
proof -
  from assms have rows: "rows = filter (\<lambda>x. \<forall>a\<in>A. row_parent_id x \<noteq> Some a) rows0"
    and rA: "row_id r \<notin> A"
    by (simp_all add: builder_inv_def)
  show ?thesis
    unfolding rows using rA by (auto intro!: filter_cong)
qed

lemma build_nodes_children:
  assumes "distinct (map row_id rows0)" and "builder_inv rows0 A rows rs"
    and "t \<in> set (forest_nodes (build_nodes rows rs))"
  shows "mset (map row_of (Children t)) = mset (filter (\<lambda>x. row_parent_id x = Some (ID t)) rows0)"
  using assms(2,3)
proof (induction rows rs arbitrary: A t rule: build_nodes.induct)
  case (1 rows)
  then show ?case by simp
next
  case (2 rows r rs)
  let ?kids = "filter (\<lambda>x. row_parent_id x = Some (row_id r)) rows"
  let ?rest = "filter (\<lambda>x. row_parent_id x \<noteq> Some (row_id r)) rows"
  let ?node = "Task (row_id r) (row_title r) (row_priority r) (row_created_at r) (row_parent_id r)
       (sortTasks (build_nodes ?rest ?kids)) True"
  from "2.prems"(2) have "t = ?node \<or> t \<in> set (forest_nodes (build_nodes ?rest ?kids))
      \<or> t \<in> set (forest_nodes (build_nodes rows rs))"
    by (auto simp: set_forest_nodes)
  then show ?case
  proof (elim disjE)
    assume tn: "t = ?node"
    have "mset (map row_of (sortTasks (build_nodes ?rest ?kids))) = mset (map row_of (build_nodes ?rest ?kids))"
      by (rule mset_map_sortTasks)
    also have "map row_of (build_nodes ?rest ?kids) = filter (\<lambda>x. row_parent_id x = Some (row_id r)) rows0"
      using builder_inv_kids_all [OF "2.prems"(1)] by simp
    finally show ?thesis
      by (simp only: tn Task.sel)
  next
    assume "t \<in> set (forest_nodes (build_nodes ?rest ?kids))"
    with builder_inv_kids [OF assms(1) "2.prems"(1)] show ?thesis
      by (rule "2.IH"(1))
  next
    assume "t \<in> set (forest_nodes (build_nodes rows rs))"
    with builder_inv_tail [OF "2.prems"(1)] show ?thesis
      by (rule "2.IH"(2))
  qed
qed

lemma buildHierarchy_children:
  assumes "distinct (map row_id rows)" and "t \<in> set (forest_nodes (buildHierarchy rows))"
  shows "mset (map row_of (Children t)) = mset (filter (\<lambda>x. row_parent_id x = Some (ID t)) rows)"
proof -
  from assms(2) have "t \<in> set (forest_nodes (build_nodes rows (filter (\<lambda>r. row_parent_id r = None) rows)))"
    by (simp add: buildHierarchy_def)
  with assms(1) builder_inv_roots [OF assms(1)] show ?thesis
    by (rule build_nodes_children)
qed


lemma mset_forest_nodes_insert_task:
  "mset (forest_nodes (insert_task x ys)) = mset (nodes x) + mset (forest_nodes ys)"
  by (induction ys) auto

lemma mset_forest_nodes_sortTasks: "mset (forest_nodes (sortTasks ts)) = mset (forest_nodes ts)"
  unfolding sortTasks_def by (induction ts) (auto simp: mset_forest_nodes_insert_task)

lemma distinct_forest_nodes_sortTasks:
  "distinct (map f (forest_nodes (sortTasks ts))) = distinct (map f (forest_nodes ts))"
proof -
  have "mset (map f (forest_nodes (sortTasks ts))) = mset (map f (forest_nodes ts))"
    by (simp add: mset_forest_nodes_sortTasks)
  then show ?thesis
    by (rule mset_eq_imp_distinct_iff)
qed

lemma build_nodes_distinct:
  assumes d0: "distinct (map row_id rows0)" and "builder_inv rows0 A rows rs"
  shows "distinct (map row_of (forest_nodes (build_nodes rows rs)))"
  using assms(2)
proof (induction rows rs arbitrary: A rule: build_nodes.induct)
  case (1 rows)
  show ?case by simp
next
  case (2 rows r rs)
  let ?kids = "filter (\<lambda>x. row_parent_id x = Some (row_id r)) rows"
  let ?rest = "filter (\<lambda>x. row_parent_id x \<noteq> Some (row_id r)) rows"
  let ?below = "forest_nodes (build_nodes ?rest ?kids)"
  let ?others = "forest_nodes (build_nodes rows rs)"
  let ?A = "insert (row_id r) A"
  note inv = "2.prems"
  have inv_kids: "builder_inv rows0 ?A ?rest ?kids"
    using d0 inv by (rule builder_inv_kids)
  have inv_tail: "builder_inv rows0 A rows rs"
    using inv by (rule builder_inv_tail)
  from inv have sub: "set rows \<subseteq> set rows0" "set (r # rs) \<subseteq> set rows0"
    and r0: "r \<in> set rows0" and rA: "row_id r \<notin> A" and rrs: "r \<notin> set rs"
    and rpar: "row_parent_id r = None \<or> row_parent_id r \<in> Some ` A"
    and heads: "\<forall>w\<in>set rs. row_id w \<notin> A \<and> (row_parent_id w = None \<or> row_parent_id w \<in> Some ` A)"
    by (auto simp: builder_inv_def)
  have cl: "closed_ids rows0 A"
    using inv by (rule builder_inv_closed)
  have not_below: "\<not> below rows0 i w"
    if "i \<notin> A" and "row_parent_id w = None \<or> row_parent_id w \<in> Some ` A" for i w
    using d0 cl that(2,1) by (rule not_below_head)
  have below_r: "below rows0 (row_id r) (row_of t)" if "t \<in> set ?below" for t
  proof -
    have "set ?rest \<subseteq> set rows0" "set ?kids \<subseteq> set rows0"
      using sub(1) by auto
    from build_nodes_below [OF this that]
    have "row_of t \<in> set ?kids \<or> (\<exists>w\<in>set ?kids. below rows0 (row_id w) (row_of t))" .
    then show ?thesis
    proof
      assume "row_of t \<in> set ?kids"
      with sub(1) show ?thesis
        by (auto intro: below.child)
    next
      assume "\<exists>w\<in>set ?kids. below rows0 (row_id w) (row_of t)"
      then obtain w where w: "w \<in> set ?kids" "below rows0 (row_id w) (row_of t)"
        by blast
      with sub(1) have "below rows0 (row_id r) w"
        by (auto intro: below.child)
      with w(2) show ?thesis
        by (rule below_trans)
    qed
  qed
  have others: "row_of t \<in> set rs \<or> (\<exists>w\<in>set rs. below rows0 (row_id w) (row_of t))"
    if "t \<in> set ?others" for t
    using sub that by (intro build_nodes_below) auto
  have d_below: "distinct (map row_of ?below)"
    using inv_kids by (rule "2.IH"(1))
  have d_others: "distinct (map row_of ?others)"
    using inv_tail by (rule "2.IH"(2))
  have r_below: "r \<notin> row_of ` set ?below"
  proof
    assume "r \<in> row_of ` set ?below"
    then obtain t where "t \<in> set ?below" "row_of t = r"
      by auto
    with below_r have "below rows0 (row_id r) r"
      by auto
    with not_below [OF rA rpar] show False
      by simp
  qed
  have r_others: "r \<notin> row_of ` set ?others"
  proof
    assume "r \<in> row_of ` set ?others"
    then obtain t where "t \<in> set ?others" "row_of t = r"
      by auto
    with others [of t] rrs obtain w where "w \<in> set rs" "below rows0 (row_id w) r"
      by auto
    with heads not_below [OF _ rpar] show False
      by auto
  qed
  have disjoint: "row_of ` set ?below \<inter> row_of ` set ?others = {}"
  proof (rule ccontr)
    assume "row_of ` set ?below \<inter> row_of ` set ?others \<noteq> {}"
    then obtain t u where t: "t \<in> set ?below" and u: "u \<in> set ?others" and tu: "row_of t = row_of u"
      by auto
    from below_r [OF t] have br: "below rows0 (row_id r) (row_of u)"
      by (simp add: tu)
    from others [OF u] show False
    proof
      assume "row_of u \<in> set rs"
      with heads have "row_parent_id (row_of u) = None \<or> row_parent_id (row_of u) \<in> Some ` A"
        by auto
      with not_below [OF rA] br show False
        by simp
    next
      assume "\<exists>w\<in>set rs. below rows0 (row_id w) (row_of u)"
      then obtain w where w: "w \<in> set rs" "below rows0 (row_id w) (row_of u)"
        by blast
      with heads sub(2) have wA: "row_id w \<notin> A" and w0: "w \<in> set rows0"
        and wpar: "row_parent_id w = None \<or> row_parent_id w \<in> Some ` A"
        by auto
      from below_chain [OF d0 br w(2)]
      consider "row_id r = row_id w"
        | y where "y \<in> set rows0" "row_id y = row_id r" "below rows0 (row_id w) y"
        | y where "y \<in> set rows0" "row_id y = row_id w" "below rows0 (row_id r) y"
        by blast
      then show False
      proof cases
        case 1
        with d0 r0 w0 have "r = w"
          by (auto intro: same_id)
        with w(1) rrs show False
          by simp
      next
        case 2
        with d0 r0 have "y = r"
          by (auto intro: same_id)
        with 2 not_below [OF wA rpar] show False
          by simp
      next
        case 3
        with d0 w0 have "y = w"
          by (auto intro: same_id)
        with 3 not_below [OF rA wpar] show False
          by simp
      qed
    qed
  qed
  have "distinct (r # map row_of ?below @ map row_of ?others)"
    using d_below d_others r_below r_others disjoint by auto
  then show ?case
    by (simp add: nodes_unfold distinct_forest_nodes_sortTasks [of row_of] del: distinct.simps distinct_append)
       (simp add: distinct_forest_nodes_sortTasks [of row_of] image_iff
          mset_forest_nodes_sortTasks [THEN mset_eq_setD])
qed

text \<open>
  A record that hangs below another has a parent, and that parent is the id it hangs
  below or the id of a record of the set.
\<close>

lemma below_parent:
  "below rows0 a x \<Longrightarrow>
   row_parent_id x = Some a \<or> (\<exists>y\<in>set rows0. row_parent_id x = Some (row_id y))"
  by (induction rule: below.induct) (auto dest: below_in)

lemma below_orphan_not_built:
  assumes d: "distinct (map row_id rows)" and r: "r \<in> set rows"
    and par: "row_parent_id r = Some p" and p: "p \<notin> row_id ` set rows"
    and bx: "below rows (row_id r) x"
  shows "x \<notin> row_of ` set (forest_nodes (buildHierarchy rows))"
proof
  let ?roots = "filter (\<lambda>r. row_parent_id r = None) rows"
  assume "x \<in> row_of ` set (forest_nodes (buildHierarchy rows))"
  then obtain t where t: "t \<in> set (forest_nodes (build_nodes rows ?roots))" and x: "x = row_of t"
    by (auto simp: buildHierarchy_def)
  from build_nodes_below [of rows rows ?roots t] t x
  have "x \<in> set ?roots \<or> (\<exists>w\<in>set ?roots. below rows (row_id w) x)"
    by simp
  then show False
  proof
    assume "x \<in> set ?roots"
    then have "row_parent_id x = None"
      by simp
    with below_parent [OF bx] show False
      by auto
  next
    assume "\<exists>w\<in>set ?roots. below rows (row_id w) x"
    then obtain w where w: "w \<in> set rows" "row_parent_id w = None" and bw: "below rows (row_id w) x"
      by auto
    from below_chain [OF d bx bw]
    consider "row_id r = row_id w"
      | y where "y \<in> set rows" "row_id y = row_id r" "below rows (row_id w) y"
      | y where "y \<in> set rows" "row_id y = row_id w" "below rows (row_id r) y"
      by blast
    then show False
    proof cases
      case 1
      with d r w(1) have "r = w"
        by (auto intro: same_id)
      with par w(2) show False
        by simp
    next
      case (2 y)
      with d r have "y = r"
        by (auto intro: same_id)
      with 2 have "below rows (row_id w) r"
        by simp
      from below_parent [OF this] par p w(1) show False
        by auto
    next
      case (3 y)
      with d w(1) have "y = w"
        by (auto intro: same_id)
      with 3 have "below rows (row_id r) w"
        by simp
      from below_parent [OF this] w(2) show False
        by auto
    qed
  qed
qed

lemma rows_with_orphan_below: "below rows_with_orphan 5 (rows_with_orphan ! 3)"
  by (rule below.child) (simp_all add: rows_with_orphan_def)

text \<open>
  C2 (as amended). For every set of records given to the tree builder, a record whose
  parent id is the id of no record in the set is in no place of the forest: it is not a
  root, it is no node at any depth, and it is in no flat view. When the ids of the set
  are distinct (\<open>id\<close> is the primary key of the table, and the key of \<open>taskMap\<close>), the
  same holds of every record that hangs, at any depth, below such a record. The roots
  are exactly the records without parent.
\<close>

theorem orphans_left_out:
  assumes "row_parent_id r = Some p" and "p \<notin> row_id ` set rows"
  shows "r \<notin> row_of ` set (buildHierarchy rows)
       \<and> r \<notin> row_of ` set (forest_nodes (buildHierarchy rows))
       \<and> r \<notin> row_of ` set (preorder_forest (buildHierarchy rows))
       \<and> row_of ` set (buildHierarchy rows) = {x \<in> set rows. row_parent_id x = None}
       \<and> (distinct (map row_id rows) \<and> r \<in> set rows \<and> below rows (row_id r) x
            \<longrightarrow> x \<notin> row_of ` set (buildHierarchy rows)
              \<and> x \<notin> row_of ` set (forest_nodes (buildHierarchy rows))
              \<and> x \<notin> row_of ` set (preorder_forest (buildHierarchy rows)))"
proof -
  have a: "r \<notin> row_of ` set (forest_nodes (buildHierarchy rows))"
  proof
    assume "r \<in> row_of ` set (forest_nodes (buildHierarchy rows))"
    then obtain t where "t \<in> set (forest_nodes (buildHierarchy rows))" and "r = row_of t"
      by auto
    with buildHierarchy_origin [of t rows] assms show False
      by auto
  qed
  have b: "r \<notin> row_of ` set (preorder_forest (buildHierarchy rows))"
    using a set_preorder_forest_nodes [of "buildHierarchy rows"] by auto
  have c: "r \<notin> row_of ` set (buildHierarchy rows)"
    using assms(1) roots_buildHierarchy [of rows] by auto
  have e: "x \<notin> row_of ` set (buildHierarchy rows)
         \<and> x \<notin> row_of ` set (forest_nodes (buildHierarchy rows))
         \<and> x \<notin> row_of ` set (preorder_forest (buildHierarchy rows))"
    if h: "distinct (map row_id rows) \<and> r \<in> set rows \<and> below rows (row_id r) x"
  proof -
    from h assms have n: "x \<notin> row_of ` set (forest_nodes (buildHierarchy rows))"
      by (intro below_orphan_not_built [of rows r p x]) simp_all
    from h have "row_parent_id x \<noteq> None"
      using below_parent [of rows "row_id r" x] by auto
    then have "x \<notin> row_of ` set (buildHierarchy rows)"
      using roots_buildHierarchy [of rows] by auto
    with n set_preorder_forest_nodes [of "buildHierarchy rows"] show ?thesis
      by auto
  qed
  from a b c e roots_buildHierarchy [of rows] show ?thesis
    by simp
qed

theorem orphans_left_out_witness:
  "row_parent_id (rows_with_orphan ! 2) = Some 9
   \<and> 9 \<notin> row_id ` set rows_with_orphan
   \<and> rows_with_orphan ! 2 \<in> set rows_with_orphan
   \<and> rows_with_orphan ! 2 \<notin> row_of ` set (forest_nodes (buildHierarchy rows_with_orphan))
   \<and> distinct (map row_id rows_with_orphan)
   \<and> below rows_with_orphan (row_id (rows_with_orphan ! 2)) (rows_with_orphan ! 3)
   \<and> rows_with_orphan ! 3 \<notin> row_of ` set (forest_nodes (buildHierarchy rows_with_orphan))
   \<and> map ID (forest_nodes (buildHierarchy rows_with_orphan)) = [1, 2]"
  using orphans_left_out [where r = "rows_with_orphan ! 2" and p = 9 and rows = rows_with_orphan
      and x = "rows_with_orphan ! 3"]
    rows_with_orphan_forest rows_with_orphan_below
  by (simp add: rows_with_orphan_def)

text \<open>
  C2 as stated makes such a record a root. Of the four records below the third names
  parent 9, which no record has as id, and the fourth names the third; the forest has
  the single root 1, and the flat view has tasks 1 and 2 only.
\<close>

theorem orphan_not_a_root_counterexample:
  "row_parent_id (rows_with_orphan ! 2) = Some 9
   \<and> 9 \<notin> row_id ` set rows_with_orphan
   \<and> rows_with_orphan ! 2 \<in> set rows_with_orphan
   \<and> map row_id rows_with_orphan = [1, 2, 5, 6]
   \<and> map ID (buildHierarchy rows_with_orphan) = [1]
   \<and> map ID (preorder_forest (buildHierarchy rows_with_orphan)) = [1, 2]"
  by (simp add: rows_with_orphan_forest) (simp add: rows_with_orphan_def)

section \<open>Creation time and the order of siblings\<close>

lemma Before_irrefl: "\<not> Before t t"
  by (simp add: Before_def)

lemma loaded_created_at:
  "CreatedAt ` set (forest_nodes (buildHierarchy (map (scan_row env) rows))) \<subseteq> {zero_time}"
proof
  fix c
  assume "c \<in> CreatedAt ` set (forest_nodes (buildHierarchy (map (scan_row env) rows)))"
  then obtain t where t: "t \<in> set (forest_nodes (buildHierarchy (map (scan_row env) rows)))"
    and c: "c = CreatedAt t"
    by auto
  from buildHierarchy_origin [OF t] have "row_of t \<in> set (map (scan_row env) rows)"
    by simp
  then have "row_created_at (row_of t) = zero_time"
    by auto
  with c show "c \<in> {zero_time}"
    by (simp add: row_of_def)
qed

lemma file_tie_started:
  "\<exists>tm. NewTaskManager env file_tie = Inr tm \<and> flatView tm = [Task 2 ''Later'' 50 zero_time None [] True, Task 1 ''Earlier'' 50 zero_time None [] True]"
  by (simp add: NewTaskManager_def initDB_def loadTasks_def sql_select_all_def log_stmt_def
      file_tie_def buildHierarchy_def sortTasks_def less_task_def Before_irrefl Let_def)

lemma file_tie_rev_started:
  "\<exists>tm. NewTaskManager env (file_tie\<lparr>table := rev (table file_tie)\<rparr>) = Inr tm
        \<and> flatView tm = [Task 1 ''Earlier'' 50 zero_time None [] True, Task 2 ''Later'' 50 zero_time None [] True]"
  by (simp add: NewTaskManager_def initDB_def loadTasks_def sql_select_all_def log_stmt_def
      file_tie_def buildHierarchy_def sortTasks_def less_task_def Before_irrefl Let_def)

text \<open>
  C5. The flat view is the pre-order walk of \<open>tm.tasks\<close> with collapsed subtrees skipped
  (\<open>flat_view_walk_of_sorted_forest\<close>), and siblings are in order of priority
  descending. Ties are not broken by creation time: the text that \<open>Scan\<close> hands to
  \<open>time.Parse\<close> is never in the layout of \<open>loadTasks\<close>, so every node that \<open>loadTasks\<close>
  builds, from whatever table, carries the zero time as \<open>CreatedAt\<close>, and siblings of
  one priority (up to twelve of them) stay in the order in which the loop over
  \<open>taskMap\<close> came to them. On the
  store \<open>file_tie\<close> (two roots of priority 50, task 1 created before task 2, task 2
  visited first) the view that the program starts with shows task 2 above task 1; with
  the same records visited the other way round it shows task 1 above task 2.
\<close>

theorem ties_not_broken_by_creation_time:
  "CreatedAt ` set (forest_nodes (buildHierarchy (map (scan_row env) rows))) \<subseteq> {zero_time}
   \<and> map (\<lambda>r. (row_id r, row_priority r, row_parent_id r)) (table file_tie)
       = [(2, 50, None), (1, 50, None)]
   \<and> Before (row_created_at (table file_tie ! 1)) (row_created_at (table file_tie ! 0))
   \<and> (\<exists>tm. NewTaskManager env file_tie = Inr tm
          \<and> map ID (flatView tm) = [2, 1]
          \<and> map Priority (flatView tm) = [50, 50]
          \<and> map CreatedAt (flatView tm) = [zero_time, zero_time])
   \<and> (\<exists>tm. NewTaskManager env (file_tie\<lparr>table := rev (table file_tie)\<rparr>) = Inr tm
          \<and> map ID (flatView tm) = [1, 2])"
proof (intro conjI)
  show "CreatedAt ` set (forest_nodes (buildHierarchy (map (scan_row env) rows))) \<subseteq> {zero_time}"
    by (rule loaded_created_at)
  show "map (\<lambda>r. (row_id r, row_priority r, row_parent_id r)) (table file_tie)
       = [(2, 50, None), (1, 50, None)]"
    by (simp add: file_tie_def)
  show "Before (row_created_at (table file_tie ! 1)) (row_created_at (table file_tie ! 0))"
    by (simp add: file_tie_def Before_def calendar_def at_second_def)
  show "\<exists>tm. NewTaskManager env file_tie = Inr tm
          \<and> map ID (flatView tm) = [2, 1]
          \<and> map Priority (flatView tm) = [50, 50]
          \<and> map CreatedAt (flatView tm) = [zero_time, zero_time]"
    using file_tie_started [of env] by auto
  show "\<exists>tm. NewTaskManager env (file_tie\<lparr>table := rev (table file_tie)\<rparr>) = Inr tm
          \<and> map ID (flatView tm) = [1, 2]"
    using file_tie_rev_started [of env] by auto
qed

section \<open>Expanding and collapsing\<close>

lemma toggle_absent: "i \<notin> ID ` set (nodes t) \<Longrightarrow> toggle i t = t"
proof (induction t)
  case (Task n ttl p c par ch e)
  have "map (toggle i) ch = ch"
  proof (rule map_idI)
    fix x
    assume x: "x \<in> set ch"
    with Task.prems have "i \<notin> ID ` set (nodes x)"
      by auto
    with x show "toggle i x = x"
      by (simp add: Task.IH)
  qed
  with Task.prems show ?case
    by auto
qed

lemma toggle_absent_forest: "i \<notin> ID ` set (forest_nodes f) \<Longrightarrow> map (toggle i) f = f"
  by (rule map_idI) (auto simp: set_forest_nodes intro: toggle_absent)

lemma toggle_twice [simp]: "toggle i (toggle i t) = t"
  by (induction t) (simp add: map_idI)

lemma toggle_twice_forest [simp]: "map (toggle i \<circ> toggle i) f = f"
  by (simp add: map_idI)

lemma preorder_nonempty [simp]: "preorder t \<noteq> []"
  by (cases t) simp

lemma preorder_hd: "preorder t ! 0 = t"
  by (cases t) simp

lemma toggle_self:
  assumes "distinct (map ID (nodes t))"
  shows "toggle (ID t) t = flip_expanded t"
proof (cases t)
  case (Task n ttl p c par ch e)
  with assms have "n \<notin> ID ` set (forest_nodes ch)"
    by (auto simp: forest_nodes_def)
  then have "map (toggle n) ch = ch"
    by (rule toggle_absent_forest)
  with Task show ?thesis
    by (simp add: flip_expanded_def)
qed

lemma preorder_flip:
  "preorder (flip_expanded t)
     = flip_expanded t # (if \<not> IsExpanded t \<and> Children t \<noteq> [] then preorder_forest (Children t) else [])"
  by (cases t) (simp add: flip_expanded_def preorder_forest_def)

lemma preorder_forest_Nil_iff [simp]: "preorder_forest f = [] \<longleftrightarrow> f = []"
  by (cases f) simp_all


lemma toggled_view_append_left:
  "toggled_view b a c \<Longrightarrow> c < length b \<Longrightarrow> toggled_view (b @ r) (a @ r) c"
  by (auto simp: toggled_view_def nth_append)

lemma toggled_view_append_right:
  "toggled_view b a c \<Longrightarrow> length l = length l' \<Longrightarrow> toggled_view (l @ b) (l' @ a) (length l + c)"
  by (auto simp: toggled_view_def nth_append)

lemma nth_preorder_forest_nodes:
  "c < length (preorder_forest f) \<Longrightarrow> preorder_forest f ! c \<in> set (forest_nodes f)"
  using set_preorder_forest_nodes [of f] nth_mem [of c "preorder_forest f"] by blast

lemma nth_preorder_nodes: "c < length (preorder t) \<Longrightarrow> preorder t ! c \<in> set (nodes t)"
  using set_preorder_nodes [of t] nth_mem [of c "preorder t"] by blast

lemma toggled_forest:
  assumes "\<And>x c. x \<in> set f \<Longrightarrow> distinct (map ID (nodes x)) \<Longrightarrow> c < length (preorder x) \<Longrightarrow>
      toggled_view (preorder x) (preorder (toggle (ID (preorder x ! c)) x)) c"
    and "distinct (map ID (forest_nodes f))"
    and "c < length (preorder_forest f)"
  shows "toggled_view (preorder_forest f)
           (preorder_forest (map (toggle (ID (preorder_forest f ! c))) f)) c"
  using assms
proof (induction f arbitrary: c)
  case Nil
  then show ?case by simp
next
  case (Cons x xs)
  from Cons.prems(2) have dx: "distinct (map ID (nodes x))"
    and dxs: "distinct (map ID (forest_nodes xs))"
    and disj: "ID ` set (nodes x) \<inter> ID ` set (forest_nodes xs) = {}"
    by auto
  show ?case
  proof (cases "c < length (preorder x)")
    case True
    let ?t = "preorder x ! c"
    have t: "preorder_forest (x # xs) ! c = ?t"
      using True by (simp add: nth_append)
    have "?t \<in> set (nodes x)"
      using True by (rule nth_preorder_nodes)
    with disj have "ID ?t \<notin> ID ` set (forest_nodes xs)"
      by auto
    then have same: "map (toggle (ID ?t)) xs = xs"
      by (rule toggle_absent_forest)
    have "toggled_view (preorder x) (preorder (toggle (ID ?t) x)) c"
      using dx True by (intro Cons.prems(1)) simp_all
    then have "toggled_view (preorder x @ preorder_forest xs)
        (preorder (toggle (ID ?t) x) @ preorder_forest xs) c"
      using True by (rule toggled_view_append_left)
    with t same show ?thesis
      by simp
  next
    case False
    define c' where "c' = c - length (preorder x)"
    with False Cons.prems(3) have c: "c = length (preorder x) + c'" and c': "c' < length (preorder_forest xs)"
      by auto
    let ?t = "preorder_forest xs ! c'"
    have t: "preorder_forest (x # xs) ! c = ?t"
      using c by (simp add: nth_append)
    have "?t \<in> set (forest_nodes xs)"
      using c' by (rule nth_preorder_forest_nodes)
    with disj have "ID ?t \<notin> ID ` set (nodes x)"
      by auto
    then have same: "toggle (ID ?t) x = x"
      by (rule toggle_absent)
    have "toggled_view (preorder_forest xs) (preorder_forest (map (toggle (ID ?t)) xs)) c'"
      using dxs c' by (intro Cons.IH Cons.prems(1)) simp_all
    then have "toggled_view (preorder x @ preorder_forest xs)
        (preorder x @ preorder_forest (map (toggle (ID ?t)) xs)) (length (preorder x) + c')"
      by (rule toggled_view_append_right) simp
    with t same c show ?thesis
      by simp
  qed
qed

lemma toggled_tree:
  "distinct (map ID (nodes x)) \<Longrightarrow> c < length (preorder x) \<Longrightarrow>
   toggled_view (preorder x) (preorder (toggle (ID (preorder x ! c)) x)) c"
proof (induction x arbitrary: c)
  case (Task n ttl p cr par ch e)
  let ?x = "Task n ttl p cr par ch e"
  show ?case
  proof (cases c)
    case 0
    have "toggle (ID ?x) ?x = flip_expanded ?x"
      using Task.prems(1) by (rule toggle_self)
    with 0 show ?thesis
      by (simp add: toggled_view_def preorder_flip) (simp add: flip_expanded_def preorder_forest_def)
  next
    case (Suc c')
    with Task.prems(2) have open_: "e \<and> ch \<noteq> []" and c': "c' < length (preorder_forest ch)"
      by (auto simp: preorder_forest_def split: if_splits)
    let ?t = "preorder_forest ch ! c'"
    have t: "preorder ?x ! c = ?t"
      using Suc open_ by (simp add: preorder_forest_def)
    from Task.prems(1) have dch: "distinct (map ID (forest_nodes ch))"
      and n: "n \<notin> ID ` set (forest_nodes ch)"
      by (auto simp: forest_nodes_def)
    have "?t \<in> set (forest_nodes ch)"
      using c' by (rule nth_preorder_forest_nodes)
    with n have ne: "n \<noteq> ID ?t"
      by auto
    have sub: "toggled_view (preorder_forest ch) (preorder_forest (map (toggle (ID ?t)) ch)) c'"
      using dch c' by (intro toggled_forest Task.IH) simp_all
    let ?x' = "Task n ttl p cr par (map (toggle (ID ?t)) ch) e"
    have "toggled_view ([?x] @ preorder_forest ch) ([?x'] @ preorder_forest (map (toggle (ID ?t)) ch))
        (length [?x] + c')"
      using sub by (rule toggled_view_append_right) simp
    with t ne open_ Suc show ?thesis
      by (simp add: preorder_forest_def)
  qed
qed

lemma toggled_preorder_forest:
  "distinct (map ID (forest_nodes f)) \<Longrightarrow> c < length (preorder_forest f) \<Longrightarrow>
   toggled_view (preorder_forest f) (preorder_forest (map (toggle (ID (preorder_forest f ! c))) f)) c"
  by (rule toggled_forest) (simp_all add: toggled_tree)


lemma fully_open_walk: "fully_open t \<Longrightarrow> preorder t = nodes t"
proof (induction t)
  case (Task n ttl p c par ch e)
  have "map preorder ch = map nodes ch"
    using Task by (intro map_cong) (auto simp: list_all_iff)
  then have "concat (map preorder ch) = concat (map nodes ch)"
    by (rule arg_cong)
  with Task.prems show ?case
    by auto
qed

lemma fully_open_forest_walk: "list_all fully_open f \<Longrightarrow> preorder_forest f = forest_nodes f"
proof -
  assume "list_all fully_open f"
  then have "map preorder f = map nodes f"
    by (intro map_cong) (auto simp: list_all_iff fully_open_walk)
  then show ?thesis
    unfolding preorder_forest_def forest_nodes_def by (rule arg_cong)
qed

lemma rebuildFlatView_modes [simp]:
  "editMode (rebuildFlatView env tm) = editMode tm"
  "inputMode (rebuildFlatView env tm) = inputMode tm"
  by (simp_all add: rebuildFlatView_def adjustScroll_def Let_def)

lemma rebuildFlatView_currentIndex:
  "0 \<le> currentIndex tm \<Longrightarrow> currentIndex tm < int (length (preorder_forest (tasks tm))) \<Longrightarrow>
   currentIndex (rebuildFlatView env tm) = currentIndex tm"
  by (simp add: rebuildFlatView_def Let_def buildFlatView_preorder)

lemma space_toggles:
  assumes "\<not> editMode tm" and "inputMode tm = []"
    and "0 \<le> currentIndex tm" and "currentIndex tm < int (length (flatView tm))"
    and "Children (flatView tm ! nat (currentIndex tm)) \<noteq> []"
  shows "handleInput env (EventKey KeySpace 0) tm
     = Some (False,
         rebuildFlatView env
           (tm\<lparr>statusMsg := [], tasks := map (toggle (ID (flatView tm ! nat (currentIndex tm)))) (tasks tm)\<rparr>))"
proof -
  from assms(3,4) have "flatView tm \<noteq> []"
    by auto
  with assms show ?thesis
    by (simp add: handleInput_def handleNormalMode_def normal_key_def normal_ch_def selectable_def
        at_index_def)
qed

lemma tm3c_reached:
  "handleInput env24 (EventKey KeyOther (rune CHR ''j'')) tm3 = Some (False, tm3\<lparr>currentIndex := 1\<rparr>)"
  "handleInput env24 (EventKey KeySpace 0) (tm3\<lparr>currentIndex := 1\<rparr>)
     = Some (False, tm3c\<lparr>currentIndex := 1\<rparr>)"
  "handleInput env24 (EventKey KeyOther (rune CHR ''k'')) (tm3c\<lparr>currentIndex := 1\<rparr>) = Some (False, tm3c)"
  by (simp_all add: handleInput_def handleNormalMode_def normal_key_def normal_ch_def tm3_def tm3c_def
      selectable_def at_index_def rebuildFlatView_def buildFlatView_preorder
      adjustScroll_def env24_def task1_def task2_def task3_def task1c_def task2c_def)

text \<open>
  C4 (as amended). In normal mode, with the flat view the walk of the forest and the ids
  of the forest's nodes distinct, for the selected task when it has a child: the toggle
  key, twice, gives back the flat view, the forest and the cursor exactly as they were.
  If the task was expanded, the first toggle shortens the flat view by the rows that
  its descendants had in it; that is the number of all its descendants when none of
  them with children is collapsed.
\<close>

theorem toggle_twice_restores:
  assumes "\<not> editMode tm" and "inputMode tm = []"
    and "flatView tm = preorder_forest (tasks tm)"
    and "distinct (map ID (forest_nodes (tasks tm)))"
    and "0 \<le> currentIndex tm" and "currentIndex tm < int (length (flatView tm))"
    and "Children (flatView tm ! nat (currentIndex tm)) \<noteq> []"
  shows "\<exists>tm1 tm2.
           handleInput env (EventKey KeySpace 0) tm = Some (False, tm1)
         \<and> handleInput env (EventKey KeySpace 0) tm1 = Some (False, tm2)
         \<and> (IsExpanded (flatView tm ! nat (currentIndex tm)) \<longrightarrow>
              length (flatView tm1)
                + length (preorder_forest (Children (flatView tm ! nat (currentIndex tm))))
              = length (flatView tm))
         \<and> (IsExpanded (flatView tm ! nat (currentIndex tm))
              \<and> list_all fully_open (Children (flatView tm ! nat (currentIndex tm))) \<longrightarrow>
              length (flatView tm1)
                + length (forest_nodes (Children (flatView tm ! nat (currentIndex tm))))
              = length (flatView tm))
         \<and> flatView tm2 = flatView tm \<and> tasks tm2 = tasks tm \<and> currentIndex tm2 = currentIndex tm"
proof -
  define c where "c = nat (currentIndex tm)"
  define task where "task = flatView tm ! c"
  define tm1 where
    "tm1 = rebuildFlatView env (tm\<lparr>statusMsg := [], tasks := map (toggle (ID task)) (tasks tm)\<rparr>)"
  define tm2 where
    "tm2 = rebuildFlatView env (tm1\<lparr>statusMsg := [], tasks := map (toggle (ID task)) (tasks tm1)\<rparr>)"
  from assms(5,6) have c: "c < length (preorder_forest (tasks tm))" and ci: "currentIndex tm = int c"
    by (simp_all add: c_def assms(3) [symmetric])
  have task: "task = preorder_forest (tasks tm) ! c"
    by (simp add: task_def assms(3))
  have tv: "toggled_view (preorder_forest (tasks tm))
      (preorder_forest (map (toggle (ID task)) (tasks tm))) c"
    unfolding task using assms(4) c by (rule toggled_preorder_forest)
  have first: "handleInput env (EventKey KeySpace 0) tm = Some (False, tm1)"
    using space_toggles [OF assms(1,2,5,6,7)] by (simp add: tm1_def task_def c_def)
  have fv1: "flatView tm1 = preorder_forest (map (toggle (ID task)) (tasks tm))"
    by (simp add: tm1_def)
  have c1: "c < length (flatView tm1)" and at1: "flatView tm1 ! c = flip_expanded task"
    using tv by (simp_all add: fv1 toggled_view_def task)
  have ci1: "currentIndex tm1 = int c"
    unfolding tm1_def using c1 ci by (subst rebuildFlatView_currentIndex) (simp_all add: fv1)
  have "Children task \<noteq> []"
    using assms(7) by (simp add: task_def c_def)
  then have kids1: "Children (flatView tm1 ! nat (currentIndex tm1)) \<noteq> []"
    and id1: "ID (flatView tm1 ! nat (currentIndex tm1)) = ID task"
    by (simp_all add: ci1 at1 flip_expanded_def)
  have modes1: "\<not> editMode tm1" "inputMode tm1 = []"
    using assms(1,2) by (simp_all add: tm1_def)
  have range1: "0 \<le> currentIndex tm1" "currentIndex tm1 < int (length (flatView tm1))"
    using c1 ci1 by simp_all
  have second: "handleInput env (EventKey KeySpace 0) tm1 = Some (False, tm2)"
    using space_toggles [OF modes1 range1 kids1] by (simp only: id1 tm2_def)
  have t2: "tasks tm2 = tasks tm"
    by (simp add: tm2_def tm1_def)
  have fv2: "flatView tm2 = flatView tm"
    by (simp add: tm2_def tm1_def assms(3))
  have ci2: "currentIndex tm2 = currentIndex tm"
    unfolding tm2_def using c ci ci1 by (subst rebuildFlatView_currentIndex) (simp_all add: tm1_def)
  have shrink: "IsExpanded task \<Longrightarrow>
      length (flatView tm1) + length (preorder_forest (Children task)) = length (flatView tm)"
    using tv by (simp add: fv1 toggled_view_def task assms(3))
  have shrink_all: "IsExpanded task \<Longrightarrow> list_all fully_open (Children task) \<Longrightarrow>
      length (flatView tm1) + length (forest_nodes (Children task)) = length (flatView tm)"
    using shrink by (simp add: fully_open_forest_walk)
  from first second shrink shrink_all fv2 t2 ci2 show ?thesis
    unfolding task_def c_def by blast
qed


theorem toggle_twice_restores_witness:
  "distinct (map ID (forest_nodes (tasks tm3)))
   \<and> Children (flatView tm3 ! nat (currentIndex tm3)) \<noteq> []
   \<and> IsExpanded (flatView tm3 ! nat (currentIndex tm3))
   \<and> list_all fully_open (Children (flatView tm3 ! nat (currentIndex tm3)))
   \<and> length (forest_nodes (Children (flatView tm3 ! nat (currentIndex tm3)))) = 2
   \<and> length (flatView tm3) = 3
   \<and> (\<exists>tm1 tm2.
           handleInput env24 (EventKey KeySpace 0) tm3 = Some (False, tm1)
         \<and> handleInput env24 (EventKey KeySpace 0) tm1 = Some (False, tm2)
         \<and> length (flatView tm1) = 1
         \<and> flatView tm2 = flatView tm3 \<and> tasks tm2 = tasks tm3)"
proof -
  have a: "\<not> editMode tm3" "inputMode tm3 = []" "flatView tm3 = preorder_forest (tasks tm3)"
    "distinct (map ID (forest_nodes (tasks tm3)))" "0 \<le> currentIndex tm3"
    "currentIndex tm3 < int (length (flatView tm3))"
    "Children (flatView tm3 ! nat (currentIndex tm3)) \<noteq> []"
    by (simp_all add: tm3_def task1_def task2_def task3_def)
  have b: "IsExpanded (flatView tm3 ! nat (currentIndex tm3))"
    "list_all fully_open (Children (flatView tm3 ! nat (currentIndex tm3)))"
    "length (forest_nodes (Children (flatView tm3 ! nat (currentIndex tm3)))) = 2"
    "length (flatView tm3) = 3"
    by (simp_all add: tm3_def task1_def task2_def task3_def)
  from toggle_twice_restores [OF a, of env24] b a(4,7) show ?thesis
    by auto
qed

text \<open>
  C4 as stated has the flat view shrink by the number of all descendants. With task 2
  collapsed (a state reached from the start by down, toggle, up), task 1 is expanded
  and has two descendants, but collapsing it shortens the view from two rows to one.
\<close>

theorem collapsed_descendant_counterexample:
  "flatView tm3c ! nat (currentIndex tm3c) = task1c
   \<and> IsExpanded task1c \<and> Children task1c \<noteq> []
   \<and> length (forest_nodes (Children task1c)) = 2
   \<and> length (flatView tm3c) = 2
   \<and> map_option (\<lambda>(quit, tm). length (flatView tm)) (handleInput env24 (EventKey KeySpace 0) tm3c)
       = Some 1"
  by (simp add: handleInput_def handleNormalMode_def normal_key_def normal_ch_def tm3_def tm3c_def
      selectable_def at_index_def rebuildFlatView_def buildFlatView_preorder
      adjustScroll_def env24_def task1_def task2_def task3_def task1c_def task2c_def Let_def)

section \<open>Task ids stay distinct\<close>

text \<open>
  The statements of the program keep the ids of the table distinct, \<open>loadTasks\<close> makes a
  forest with distinct ids from such a table, and a toggle changes no id. So the manager
  that the program starts with on a table with distinct ids, and every manager after
  it, has distinct ids in its forest: the condition under which a task's id names one
  node.
\<close>

lemma ID_row_of [simp]: "row_id (row_of t) = ID t"
  by (simp add: row_of_def)

lemma buildHierarchy_distinct_ids:
  assumes "distinct (map row_id rows)"
  shows "distinct (map ID (forest_nodes (buildHierarchy rows)))"
proof -
  let ?ns = "forest_nodes (buildHierarchy rows)"
  have "distinct (map row_of (forest_nodes (build_nodes rows (filter (\<lambda>r. row_parent_id r = None) rows))))"
    using assms builder_inv_roots [OF assms] by (rule build_nodes_distinct)
  then have d: "distinct (map row_of ?ns)"
    by (simp add: buildHierarchy_def distinct_forest_nodes_sortTasks)
  have "set (map row_of ?ns) \<subseteq> set rows"
    using buildHierarchy_origin [of _ rows] by auto
  with assms have "inj_on row_id (set (map row_of ?ns))"
    by (auto simp: distinct_map intro: inj_on_subset)
  with d have "distinct (map row_of ?ns) \<and> inj_on row_id (set (map row_of ?ns))"
    by blast
  then have "distinct (map row_id (map row_of ?ns))"
    by (rule distinct_map [THEN iffD2])
  then show ?thesis
    by (simp add: comp_def)
qed

lemma nodes_toggle: "map ID (nodes (toggle i t)) = map ID (nodes t)"
proof (induction t)
  case (Task n ttl p c par ch e)
  have "map (\<lambda>x. map ID (nodes (toggle i x))) ch = map (\<lambda>x. map ID (nodes x)) ch"
    by (rule map_cong [OF refl]) (rule Task.IH)
  then have "concat (map (\<lambda>x. map ID (nodes (toggle i x))) ch) = concat (map (\<lambda>x. map ID (nodes x)) ch)"
    by (rule arg_cong)
  then show ?case
    by (simp add: map_concat comp_def)
qed

lemma forest_nodes_toggle: "map ID (forest_nodes (map (toggle i) f)) = map ID (forest_nodes f)"
proof -
  have "map (\<lambda>x. map ID (nodes (toggle i x))) f = map (\<lambda>x. map ID (nodes x)) f"
    by (rule map_cong [OF refl]) (rule nodes_toggle)
  then have "concat (map (\<lambda>x. map ID (nodes (toggle i x))) f) = concat (map (\<lambda>x. map ID (nodes x)) f)"
    by (rule arg_cong)
  then show ?thesis
    by (simp add: forest_nodes_def map_concat comp_def)
qed

lemma fold_max_start: "a \<le> fold max xs (a::int)"
proof (induction xs arbitrary: a)
  case Nil
  show ?case by simp
next
  case (Cons x xs)
  have "a \<le> max x a" by simp
  also have "max x a \<le> fold max xs (max x a)" by (rule Cons.IH)
  finally show ?case by simp
qed

lemma fold_max_ge: "x \<in> set xs \<Longrightarrow> x \<le> fold max xs (a::int)"
proof (induction xs arbitrary: a)
  case Nil
  then show ?case by simp
next
  case (Cons y xs)
  show ?case
  proof (cases "x = y")
    case True
    have "x \<le> max y a" using True by simp
    also have "max y a \<le> fold max xs (max y a)" by (rule fold_max_start)
    finally show ?thesis by simp
  next
    case False
    with Cons.prems have "x \<in> set xs" by simp
    then show ?thesis by (simp add: Cons.IH)
  qed
qed

lemma next_id_fresh: "next_id d \<notin> row_id ` set (table d)"
proof
  assume "next_id d \<in> row_id ` set (table d)"
  then have "next_id d \<in> set (map row_id (table d))"
    by simp
  then have "next_id d \<le> fold max (map row_id (table d)) 0"
    by (rule fold_max_ge)
  then show False
    by (simp add: next_id_def)
qed

lemma distinct_cascade: "distinct (map row_id rs) \<Longrightarrow> distinct (map row_id (cascade dead rs))"
proof (induction dead rs rule: cascade.induct)
  case (1 dead rs)
  show ?case
  proof (cases "filter (refers_to dead) rs = []")
    case True
    with "1.prems" show ?thesis
      by (simp add: cascade.simps [of dead rs])
  next
    case False
    with "1.prems" "1.IH" show ?thesis
      by (simp add: cascade.simps [of dead rs] distinct_map_filter)
  qed
qed

lemma pk_insert:
  "distinct (map row_id (table d)) \<Longrightarrow> distinct (map row_id (table (snd (sql_insert t ttl p par d))))"
  using next_id_fresh [of d]
  by (auto simp: sql_insert_def log_stmt_def Let_def next_id_def split: option.splits)

lemma pk_delete:
  "distinct (map row_id (table d)) \<Longrightarrow> distinct (map row_id (table (snd (sql_delete i d))))"
  by (auto simp: sql_delete_def log_stmt_def Let_def distinct_map_filter distinct_cascade split: option.splits)

lemma pk_update:
  "distinct (map row_id (table d)) \<Longrightarrow> distinct (map row_id (table (snd (sql_update i ttl p d))))"
proof -
  have "map row_id (map (\<lambda>r. if row_id r = i then r\<lparr>row_title := ttl, row_priority := p\<rparr> else r) rs)
      = map row_id rs" for rs :: "row list"
    by (induction rs) auto
  then show "distinct (map row_id (table d)) \<Longrightarrow> ?thesis"
    by (auto simp: sql_update_def log_stmt_def Let_def simp del: map_map split: option.splits)
qed

lemma pk_set_priority:
  "distinct (map row_id (table d)) \<Longrightarrow> distinct (map row_id (table (snd (sql_set_priority i p d))))"
proof -
  have "map row_id (map (\<lambda>r. if row_id r = i then r\<lparr>row_priority := p\<rparr> else r) rs) = map row_id rs"
    for rs :: "row list"
    by (induction rs) auto
  then show "distinct (map row_id (table d)) \<Longrightarrow> ?thesis"
    by (auto simp: sql_set_priority_def log_stmt_def Let_def simp del: map_map split: option.splits)
qed

lemma pk_select_priority [simp]: "table (snd (sql_select_priority i d)) = table d"
  by (auto simp: sql_select_priority_def log_stmt_def Let_def split: option.splits)


lemma ids_inv_fields [simp]:
  "ids_inv (tm\<lparr>currentIndex := c\<rparr>) = ids_inv tm"
  "ids_inv (tm\<lparr>scrollOffset := c\<rparr>) = ids_inv tm"
  "ids_inv (tm\<lparr>flatView := fv\<rparr>) = ids_inv tm"
  "ids_inv (tm\<lparr>statusMsg := m\<rparr>) = ids_inv tm"
  "ids_inv (tm\<lparr>editMode := b\<rparr>) = ids_inv tm"
  "ids_inv (tm\<lparr>editBuffer := m\<rparr>) = ids_inv tm"
  "ids_inv (tm\<lparr>inputMode := m\<rparr>) = ids_inv tm"
  "ids_inv (tm\<lparr>inputStep := c\<rparr>) = ids_inv tm"
  "ids_inv (tm\<lparr>inputTitle := m\<rparr>) = ids_inv tm"
  "ids_inv (tm\<lparr>inputPriority := m\<rparr>) = ids_inv tm"
  by (simp_all add: ids_inv_def)

lemma ids_inv_adjustScroll [simp]: "ids_inv (adjustScroll env tm) = ids_inv tm"
  by (simp add: ids_inv_def)

lemma ids_inv_rebuildFlatView [simp]: "ids_inv (rebuildFlatView env tm) = ids_inv tm"
  by (simp add: ids_inv_def)

lemma ids_inv_clear_input [simp]: "ids_inv (clear_input tm) = ids_inv tm"
  by (simp add: clear_input_def)

lemma ids_inv_loadTasks: "ids_inv tm \<Longrightarrow> ids_inv (snd (loadTasks env tm))"
  by (auto simp: ids_inv_def loadTasks_def sql_select_all_def log_stmt_def Let_def
      buildHierarchy_distinct_ids split: option.splits)

lemma ids_inv_reload:
  assumes "ids_inv tm" and "distinct (map row_id (table d))"
  shows "ids_inv (snd (loadTasks env (tm\<lparr>db := d, statusMsg := m\<rparr>)))"
proof -
  from assms have "ids_inv (tm\<lparr>db := d, statusMsg := m\<rparr>)"
    by (simp add: ids_inv_def)
  then show ?thesis
    by (simp add: ids_inv_loadTasks)
qed

lemma ids_inv_db:
  "ids_inv tm \<Longrightarrow> distinct (map row_id (table d)) \<Longrightarrow> ids_inv (tm\<lparr>db := d\<rparr>)"
  by (simp add: ids_inv_def)

lemma ids_inv_pk: "ids_inv tm \<Longrightarrow> distinct (map row_id (table (db tm)))"
  by (simp add: ids_inv_def)

lemma ids_inv_addTask:
  assumes "ids_inv tm"
  shows "ids_inv (snd (addTask env ttl p par tm))"
proof -
  obtain r d where r: "sql_insert (now env) ttl p par (db tm) = (r, d)"
    by (cases "sql_insert (now env) ttl p par (db tm)")
  with pk_insert [OF ids_inv_pk [OF assms], of "now env" ttl p par]
  have "distinct (map row_id (table d))"
    by simp
  with assms r show ?thesis
    by (cases r) (simp_all add: addTask_def ids_inv_reload ids_inv_db)
qed

lemma ids_inv_deleteTask:
  assumes "ids_inv tm"
  shows "ids_inv (snd (deleteTask env i tm))"
proof -
  obtain r d where r: "sql_delete i (db tm) = (r, d)"
    by (cases "sql_delete i (db tm)")
  with pk_delete [OF ids_inv_pk [OF assms], of i]
  have "distinct (map row_id (table d))"
    by simp
  with assms r show ?thesis
    by (cases r) (simp_all add: deleteTask_def ids_inv_reload ids_inv_db)
qed

lemma ids_inv_updateTask:
  assumes "ids_inv tm"
  shows "ids_inv (snd (updateTask env i ttl p tm))"
proof -
  obtain r d where r: "sql_update i ttl p (db tm) = (r, d)"
    by (cases "sql_update i ttl p (db tm)")
  with pk_update [OF ids_inv_pk [OF assms], of i ttl p]
  have "distinct (map row_id (table d))"
    by simp
  with assms r show ?thesis
    by (cases r) (simp_all add: updateTask_def ids_inv_reload ids_inv_db)
qed

lemma ids_inv_updateTaskPriority:
  assumes "ids_inv tm"
  shows "ids_inv (snd (updateTaskPriority env i c tm))"
proof -
  obtain r d where r: "sql_select_priority i (db tm) = (r, d)"
    by (cases "sql_select_priority i (db tm)")
  then have "table d = table (db tm)"
    using pk_select_priority [of i "db tm"] by simp
  with assms have d: "distinct (map row_id (table d))"
    by (simp add: ids_inv_def)
  show ?thesis
  proof (cases r)
    case (Inl e)
    with assms r d show ?thesis
      by (simp add: updateTaskPriority_def ids_inv_db)
  next
    case (Inr cur)
    define newp where "newp = (if 100 < (if wrap64 (cur + c) < 1 then 1 else wrap64 (cur + c)) then 100
        else (if wrap64 (cur + c) < 1 then 1 else wrap64 (cur + c)))"
    obtain r' d' where r': "sql_set_priority i newp d = (r', d')"
      by (cases "sql_set_priority i newp d")
    with pk_set_priority [OF d, of i newp] have "distinct (map row_id (table d'))"
      by simp
    with assms r Inr r' show ?thesis
      by (cases r') (simp_all add: updateTaskPriority_def Let_def newp_def ids_inv_reload ids_inv_db)
  qed
qed

lemma ids_inv_toggle:
  "ids_inv tm \<Longrightarrow> ids_inv (tm\<lparr>tasks := map (toggle i) (tasks tm)\<rparr>)"
  by (simp add: ids_inv_def forest_nodes_toggle)

lemma ids_inv_normal_key:
  "ids_inv tm \<Longrightarrow> normal_key env k tm = Some (quit, tm') \<Longrightarrow> ids_inv tm'"
  by (cases k)
     (auto simp: normal_key_def scrollHalfPageDown_def scrollHalfPageUp_def Let_def ids_inv_toggle
        split: if_splits option.splits)

lemma ids_inv_normal_ch:
  "ids_inv tm \<Longrightarrow> normal_ch env ch tm = Some (quit, tm') \<Longrightarrow> ids_inv tm'"
  unfolding normal_ch_def
  by (auto simp: ids_inv_updateTaskPriority ids_inv_deleteTask split: if_splits option.splits)

lemma ids_inv_handleNormalMode:
  assumes "ids_inv tm" and "handleNormalMode env k ch tm = Some (quit, tm')"
  shows "ids_inv tm'"
proof (cases "normal_key env k (tm\<lparr>statusMsg := []\<rparr>)")
  case None
  with assms(2) show ?thesis
    by (simp add: handleNormalMode_def)
next
  case (Some r)
  obtain q1 tm1 where r: "r = (q1, tm1)"
    by (cases r)
  from assms(1) have "ids_inv (tm\<lparr>statusMsg := []\<rparr>)"
    by simp
  moreover from Some r have "normal_key env k (tm\<lparr>statusMsg := []\<rparr>) = Some (q1, tm1)"
    by simp
  ultimately have inv1: "ids_inv tm1"
    by (rule ids_inv_normal_key)
  show ?thesis
  proof (cases q1)
    case True
    with assms(2) Some r inv1 show ?thesis
      by (simp add: handleNormalMode_def)
  next
    case False
    with assms(2) Some r have "normal_ch env ch tm1 = Some (quit, tm')"
      by (simp add: handleNormalMode_def)
    with inv1 show ?thesis
      by (rule ids_inv_normal_ch)
  qed
qed

lemma ids_inv_after_add: "ids_inv (snd r) \<Longrightarrow> ids_inv (after_add r)"
  by (cases r) (auto simp: after_add_def split: option.splits error.splits)

lemma ids_inv_handleInputMode:
  "ids_inv tm \<Longrightarrow> handleInputMode env k ch tm = Some (quit, tm') \<Longrightarrow> ids_inv tm'"
  by (cases k)
     (auto simp: handleInputMode_def append_input_def Let_def ids_inv_after_add ids_inv_addTask
        split: if_splits option.splits)

lemma ids_inv_handleEditMode:
  "ids_inv tm \<Longrightarrow> handleEditMode env k ch tm = Some (quit, tm') \<Longrightarrow> ids_inv tm'"
  by (cases k)
     (auto simp: handleEditMode_def ids_inv_updateTask split: if_splits option.splits list.splits)

lemma ids_inv_handleInput:
  "ids_inv tm \<Longrightarrow> handleInput env ev tm = Some (quit, tm') \<Longrightarrow> ids_inv tm'"
  by (cases ev)
     (auto simp: handleInput_def split: if_splits
        dest: ids_inv_handleEditMode ids_inv_handleInputMode ids_inv_handleNormalMode)

lemma ids_inv_NewTaskManager:
  assumes "distinct (map row_id (table disk))" and "NewTaskManager env disk = Inr tm"
  shows "ids_inv tm"
proof -
  obtain r d where r: "initDB disk = (r, d)"
    by (cases "initDB disk")
  then have "table d = table disk"
    by (auto simp: initDB_def log_stmt_def Let_def split: option.splits)
  with assms(1) have "ids_inv \<lparr>db = d, tasks = [], currentIndex = 0, scrollOffset = 0, flatView = [],
      editMode = False, editBuffer = [], statusMsg = [], inputMode = [],
      inputStep = 0, inputTitle = [], inputPriority = []\<rparr>"
    by (simp add: ids_inv_def)
  then have "ids_inv (rebuildFlatView env (snd (loadTasks env \<lparr>db = d, tasks = [], currentIndex = 0,
      scrollOffset = 0, flatView = [], editMode = False, editBuffer = [], statusMsg = [], inputMode = [],
      inputStep = 0, inputTitle = [], inputPriority = []\<rparr>)))"
    by (simp add: ids_inv_loadTasks)
  with assms(2) r show ?thesis
    by (auto simp: NewTaskManager_def split: option.splits)
qed

section \<open>The viewport\<close>

text \<open>
  C6 (as amended). For every state with a valid cursor: when the window has at least one
  row (\<open>height - 4 \<ge> 1\<close>), after \<open>adjustScroll\<close> the cursor is inside the window,
  \<open>scrollOffset \<le> currentIndex < scrollOffset + windowHeight\<close>, and
  \<open>0 \<le> scrollOffset \<le> max 0 (totalLength - windowHeight)\<close>; when the window has no row,
  \<open>adjustScroll\<close> returns at its guard and the state is as it was.
\<close>

theorem adjustScroll_window:
  assumes "valid_index tm"
  shows "(1 \<le> height env - 4 \<longrightarrow>
            scrollOffset (adjustScroll env tm) \<le> currentIndex (adjustScroll env tm)
          \<and> currentIndex (adjustScroll env tm) < scrollOffset (adjustScroll env tm) + (height env - 4)
          \<and> 0 \<le> scrollOffset (adjustScroll env tm)
          \<and> scrollOffset (adjustScroll env tm)
              \<le> max 0 (int (length (flatView (adjustScroll env tm))) - (height env - 4)))
       \<and> (height env - 4 \<le> 0 \<longrightarrow> adjustScroll env tm = tm)"
  using assms
  by (auto simp: adjustScroll_def valid_index_def Let_def split: if_splits)

theorem adjustScroll_window_witness:
  "valid_index (tm3\<lparr>currentIndex := 2\<rparr>)
   \<and> 1 \<le> height (env24\<lparr>height := 6\<rparr>) - 4
   \<and> scrollOffset (adjustScroll (env24\<lparr>height := 6\<rparr>) (tm3\<lparr>currentIndex := 2\<rparr>)) = 1
   \<and> scrollOffset (adjustScroll (env24\<lparr>height := 6\<rparr>) (tm3\<lparr>currentIndex := 2\<rparr>))
        \<le> currentIndex (adjustScroll (env24\<lparr>height := 6\<rparr>) (tm3\<lparr>currentIndex := 2\<rparr>))
   \<and> currentIndex (adjustScroll (env24\<lparr>height := 6\<rparr>) (tm3\<lparr>currentIndex := 2\<rparr>))
        < scrollOffset (adjustScroll (env24\<lparr>height := 6\<rparr>) (tm3\<lparr>currentIndex := 2\<rparr>)) + 2
   \<and> height (env24\<lparr>height := 4\<rparr>) - 4 \<le> 0
   \<and> adjustScroll (env24\<lparr>height := 4\<rparr>) (tm3\<lparr>currentIndex := 2\<rparr>) = tm3\<lparr>currentIndex := 2\<rparr>"
  using adjustScroll_window [of "tm3\<lparr>currentIndex := 2\<rparr>" "env24\<lparr>height := 6\<rparr>"]
    adjustScroll_window [of "tm3\<lparr>currentIndex := 2\<rparr>" "env24\<lparr>height := 4\<rparr>"]
  by (simp add: valid_index_def tm3_def adjustScroll_def)

text \<open>
  C6 as stated promises the bounds on \<open>scrollOffset\<close> after any call. With a terminal of
  four lines the window has no row, the guard returns, and an offset of 5 over a view
  of three rows stays 5, above \<open>max 0 (3 - 0)\<close>.
\<close>

theorem adjustScroll_no_window_counterexample:
  "valid_index (tm3\<lparr>scrollOffset := 5\<rparr>)
   \<and> \<not> (scrollOffset (adjustScroll (env24\<lparr>height := 4\<rparr>) (tm3\<lparr>scrollOffset := 5\<rparr>))
          \<le> max 0 (int (length (flatView (adjustScroll (env24\<lparr>height := 4\<rparr>) (tm3\<lparr>scrollOffset := 5\<rparr>))))
                     - (height (env24\<lparr>height := 4\<rparr>) - 4)))"
  by (simp add: valid_index_def tm3_def adjustScroll_def)

section \<open>Adding and editing\<close>

text \<open>
  C7. In creation mode at the title step, confirm with an empty title buffer only sets
  the status message: the step stays 0, the mode stays, and the store is not touched
  (the manager is the old one but for \<open>statusMsg\<close>). Whatever the key, the step becomes 1
  exactly when the key is confirm and the title buffer is not empty.
\<close>

theorem empty_title_rejected:
  assumes "\<not> editMode tm" and "inputMode tm \<noteq> []" and "inputStep tm = 0"
  shows "(inputTitle tm = [] \<longrightarrow>
            handleInput env (EventKey KeyEnter ch) tm
              = Some (False, tm\<lparr>statusMsg := ''Task title cannot be empty''\<rparr>))
       \<and> (\<exists>tm'. handleInput env (EventKey k ch) tm = Some (False, tm')
              \<and> (inputStep tm' = 1 \<longleftrightarrow> k = KeyEnter \<and> inputTitle tm \<noteq> []))"
  using assms
  by (cases k) (auto simp: handleInput_def handleInputMode_def clear_input_def append_input_def)

theorem empty_title_rejected_witness:
  "handleInput env24 (EventKey KeyEnter 0) (tm3\<lparr>inputMode := ''add''\<rparr>)
     = Some (False, tm3\<lparr>inputMode := ''add'', statusMsg := ''Task title cannot be empty''\<rparr>)
   \<and> issued (db (tm3\<lparr>inputMode := ''add'', statusMsg := ''Task title cannot be empty''\<rparr>))
       = issued (db tm3)
   \<and> (\<exists>tm'. handleInput env24 (EventKey KeyEnter 0) (tm3\<lparr>inputMode := ''add'', inputTitle := ''Buy milk''\<rparr>)
                = Some (False, tm')
            \<and> inputStep tm' = 1)"
  using empty_title_rejected [where tm = "tm3\<lparr>inputMode := ''add''\<rparr>" and env = env24 and ch = 0 and k = KeyEnter]
    empty_title_rejected [where tm = "tm3\<lparr>inputMode := ''add'', inputTitle := ''Buy milk''\<rparr>" and env = env24
      and ch = 0 and k = KeyEnter]
  by (simp add: tm3_def)

text \<open>
  C9. In edit mode (with a cursor that is not negative), confirm on a buffer without a
  colon gives back the manager as it was but for \<open>editMode\<close> and \<open>editBuffer\<close>: no
  statement is sent and no task changes. Whatever the buffer, confirm leaves edit mode
  with an empty buffer.
\<close>

theorem edit_without_colon_discarded:
  assumes "editMode tm" and "0 \<le> currentIndex tm"
  shows "(CHR '':'' \<notin> set (editBuffer tm) \<longrightarrow>
            handleInput env (EventKey KeyEnter ch) tm
              = Some (False, tm\<lparr>editMode := False, editBuffer := []\<rparr>))
       \<and> (\<exists>tm'. handleInput env (EventKey KeyEnter ch) tm = Some (False, tm')
              \<and> \<not> editMode tm' \<and> editBuffer tm' = [])"
proof (cases "selectable tm")
  case True
  then have at: "at_index (flatView tm) (currentIndex tm) = Some (flatView tm ! nat (currentIndex tm))"
    using assms(2) by (rule at_index_selectable)
  show ?thesis
  proof (cases "CHR '':'' \<in> set (editBuffer tm)")
    case True
    with \<open>selectable tm\<close> at assms(1) show ?thesis
      by (simp add: handleInput_def handleEditMode_def SplitN_colon_some)
  next
    case False
    with \<open>selectable tm\<close> at assms(1) show ?thesis
      by (simp add: handleInput_def handleEditMode_def SplitN_colon_none)
  qed
next
  case False
  with assms(1) show ?thesis
    by (simp add: handleInput_def handleEditMode_def)
qed

theorem edit_without_colon_discarded_witness:
  "handleInput env24 (EventKey KeyEnter 0) (tm3\<lparr>editMode := True, editBuffer := ''no-colon-here''\<rparr>)
     = Some (False, tm3)
   \<and> (\<exists>tm'. handleInput env24 (EventKey KeyEnter 0) (tm3\<lparr>editMode := True, editBuffer := ''New Title:200''\<rparr>)
                = Some (False, tm')
            \<and> \<not> editMode tm' \<and> editBuffer tm' = [])"
  using edit_without_colon_discarded [where tm = "tm3\<lparr>editMode := True, editBuffer := ''no-colon-here''\<rparr>"
      and env = env24 and ch = 0]
    edit_without_colon_discarded [where tm = "tm3\<lparr>editMode := True, editBuffer := ''New Title:200''\<rparr>"
      and env = env24 and ch = 0]
  by (simp add: tm3_def)

text \<open>
  C10. In edit mode with a task selected and a working store: when the buffer has a colon
  and the part before the first colon trims to the empty string, confirm sends
  \<open>UPDATE\<close> with the empty title for the selected task's id (followed by the reload),
  and every row with that id now has the empty title.
\<close>

theorem edit_empty_title_stored:
  assumes "editMode tm" and "selectable tm" and "0 \<le> currentIndex tm" and "fault (db tm) = None"
    and "CHR '':'' \<in> set (editBuffer tm)"
    and "TrimSpace (takeWhile (\<lambda>c. c \<noteq> CHR '':'') (editBuffer tm)) = []"
  shows "\<exists>tm'. handleInput env (EventKey KeyEnter ch) tm = Some (False, tm')
           \<and> issued (db tm')
               = issued (db tm) @
                 [Update (ID (flatView tm ! nat (currentIndex tm))) []
                    (edit_priority (flatView tm ! nat (currentIndex tm))
                       (tl (dropWhile (\<lambda>c. c \<noteq> CHR '':'') (editBuffer tm)))),
                  SelectAll]
           \<and> table (db tm')
               = map (\<lambda>r. if row_id r = ID (flatView tm ! nat (currentIndex tm))
                           then r\<lparr>row_title := [],
                                  row_priority := edit_priority (flatView tm ! nat (currentIndex tm))
                                     (tl (dropWhile (\<lambda>c. c \<noteq> CHR '':'') (editBuffer tm)))\<rparr>
                           else r)
                   (table (db tm))"
proof -
  have at: "at_index (flatView tm) (currentIndex tm) = Some (flatView tm ! nat (currentIndex tm))"
    using assms(2,3) by (rule at_index_selectable)
  show ?thesis
    using assms at
    by (simp add: handleInput_def handleEditMode_def SplitN_colon_some updateTask_db)
qed

theorem edit_empty_title_stored_witness:
  "editMode (tm3\<lparr>editMode := True, editBuffer := '' : 30 ''\<rparr>)
   \<and> selectable (tm3\<lparr>editMode := True, editBuffer := '' : 30 ''\<rparr>)
   \<and> TrimSpace (takeWhile (\<lambda>c. c \<noteq> CHR '':'') '' : 30 '') = []
   \<and> (\<exists>tm'. handleInput env24 (EventKey KeyEnter 0) (tm3\<lparr>editMode := True, editBuffer := '' : 30 ''\<rparr>)
                = Some (False, tm')
            \<and> issued (db tm') = [CreateTable, SelectAll, Update 1 [] 30, SelectAll]
            \<and> map row_title (table (db tm')) = [[], ''Draft'', ''Review'']
            \<and> map row_priority (table (db tm')) = [30, 50, 70])"
proof -
  have t: "TrimSpace '' '' = []"
    by (simp add: TrimSpace_def space_width_def space_runes_def)
  have p: "edit_priority task1 '' 30 '' = 30"
    by (simp add: edit_priority_def trim_30 atoi_30)
  show ?thesis
    using edit_empty_title_stored [where tm = "tm3\<lparr>editMode := True, editBuffer := '' : 30 ''\<rparr>"
        and env = env24 and ch = 0] t p
    by (auto simp add: tm3_def selectable_def file3_def task1_def)
qed

text \<open>
  With a working store. Creation mode, priority step: when the priority buffer is
  empty, is no integer for \<open>strconv.Atoi\<close>, or is an integer outside 1..100, confirm
  adds a row of priority 50 and reports the added task, unless the mode is
  \<open>addsubtask\<close> and the cursor is negative on a view that is not empty: then the read
  \<open>tm.flatView[tm.currentIndex]\<close> panics. Edit mode, with a cursor that is not negative:
  when the part after the first colon, trimmed, is no integer, confirm sends \<open>UPDATE\<close>
  with the selected task's present priority clamped to 1..100.
\<close>

lemma priority_fallback:
  assumes "fault (db tm) = None"
  shows "(\<not> editMode tm \<and> inputMode tm \<noteq> [] \<and> inputStep tm \<noteq> 0 \<and> \<not> foreign_keys (db tm)
            \<and> (inputPriority tm = [] \<or> Atoi (inputPriority tm) = None
                \<or> (\<exists>p. Atoi (inputPriority tm) = Some p \<and> (p < 1 \<or> 100 < p)))
          \<longrightarrow> (if inputMode tm = ''addsubtask'' \<and> selectable tm \<and> currentIndex tm < 0
               then handleInput env (EventKey KeyEnter ch) tm = None
               else (\<exists>tm'. handleInput env (EventKey KeyEnter ch) tm = Some (False, tm')
                 \<and> table (db tm')
                     = table (db tm) @
                       [new_row env (inputTitle tm) 50
                          (if inputMode tm = ''addsubtask'' \<and> selectable tm
                           then Some (ID (flatView tm ! nat (currentIndex tm))) else None)
                          (db tm)]
                 \<and> statusMsg tm'
                     = ''Added task: '' @ inputTitle tm @ '' (ID: '' @ itoa (next_id (db tm)) @ '')'')))
       \<and> (editMode tm \<and> selectable tm \<and> 0 \<le> currentIndex tm \<and> CHR '':'' \<in> set (editBuffer tm)
            \<and> Atoi (TrimSpace (tl (dropWhile (\<lambda>c. c \<noteq> CHR '':'') (editBuffer tm)))) = None
          \<longrightarrow> (\<exists>tm'. handleInput env (EventKey KeyEnter ch) tm = Some (False, tm')
                 \<and> issued (db tm')
                     = issued (db tm) @
                       [Update (ID (flatView tm ! nat (currentIndex tm)))
                          (TrimSpace (takeWhile (\<lambda>c. c \<noteq> CHR '':'') (editBuffer tm)))
                          (max 1 (min 100 (Priority (flatView tm ! nat (currentIndex tm))))),
                        SelectAll]))"
proof (intro conjI impI)
  assume a: "\<not> editMode tm \<and> inputMode tm \<noteq> [] \<and> inputStep tm \<noteq> 0 \<and> \<not> foreign_keys (db tm)
            \<and> (inputPriority tm = [] \<or> Atoi (inputPriority tm) = None
                \<or> (\<exists>p. Atoi (inputPriority tm) = Some p \<and> (p < 1 \<or> 100 < p)))"
  then have p: "creation_priority (inputPriority tm) = 50"
    by (intro creation_priority_fallback) blast
  let ?par = "if inputMode tm = ''addsubtask'' \<and> selectable tm
              then Some (ID (flatView tm ! nat (currentIndex tm))) else None"
  obtain e tm1 where r: "addTask env (inputTitle tm) 50 ?par tm = (e, tm1)"
    by (cases "addTask env (inputTitle tm) 50 ?par tm")
  from a have nfk: "\<not> foreign_keys (db tm)"
    by simp
  from addTask_ok [OF assms nfk, of env "inputTitle tm" 50 ?par] r
  have ok: "e = None"
    "table (db tm1) = table (db tm) @ [new_row env (inputTitle tm) 50 ?par (db tm)]"
    "statusMsg tm1 = ''Added task: '' @ inputTitle tm @ '' (ID: '' @ itoa (next_id (db tm)) @ '')''"
    by simp_all
  show "if inputMode tm = ''addsubtask'' \<and> selectable tm \<and> currentIndex tm < 0
        then handleInput env (EventKey KeyEnter ch) tm = None
        else (\<exists>tm'. handleInput env (EventKey KeyEnter ch) tm = Some (False, tm')
          \<and> table (db tm') = table (db tm) @ [new_row env (inputTitle tm) 50 ?par (db tm)]
          \<and> statusMsg tm'
              = ''Added task: '' @ inputTitle tm @ '' (ID: '' @ itoa (next_id (db tm)) @ '')'')"
  proof (cases "inputMode tm = ''addsubtask'' \<and> selectable tm")
    case True
    show ?thesis
    proof (cases "currentIndex tm < 0")
      case neg: True
      then have "at_index (flatView tm) (currentIndex tm) = None"
        by (simp add: at_index_def)
      with True neg a show ?thesis
        by (simp add: handleInput_def handleInputMode_def)
    next
      case False
      with True have "at_index (flatView tm) (currentIndex tm) = Some (flatView tm ! nat (currentIndex tm))"
        by (simp add: at_index_selectable)
      with True False a p r ok show ?thesis
        by (simp add: handleInput_def handleInputMode_def after_add_def)
    qed
  next
    case False
    with a p r ok show ?thesis
      by (auto simp add: handleInput_def handleInputMode_def after_add_def)
  qed
next
  assume b: "editMode tm \<and> selectable tm \<and> 0 \<le> currentIndex tm \<and> CHR '':'' \<in> set (editBuffer tm)
            \<and> Atoi (TrimSpace (tl (dropWhile (\<lambda>c. c \<noteq> CHR '':'') (editBuffer tm)))) = None"
  then have at: "at_index (flatView tm) (currentIndex tm) = Some (flatView tm ! nat (currentIndex tm))"
    by (simp add: at_index_selectable)
  from b at assms
  show "\<exists>tm'. handleInput env (EventKey KeyEnter ch) tm = Some (False, tm')
                 \<and> issued (db tm')
                     = issued (db tm) @
                       [Update (ID (flatView tm ! nat (currentIndex tm)))
                          (TrimSpace (takeWhile (\<lambda>c. c \<noteq> CHR '':'') (editBuffer tm)))
                          (max 1 (min 100 (Priority (flatView tm ! nat (currentIndex tm))))),
                        SelectAll]"
    by (simp add: handleInput_def handleEditMode_def SplitN_colon_some updateTask_db edit_priority_fallback)
qed

lemma priority_fallback_examples:
  "(\<exists>tm'. handleInput env24 (EventKey KeyEnter 0)
             (tm3\<lparr>inputMode := ''add'', inputStep := 1, inputTitle := ''Buy milk'', inputPriority := ''abc''\<rparr>)
            = Some (False, tm')
        \<and> map row_priority (table (db tm')) = [50, 50, 70, 50]
        \<and> statusMsg tm' = ''Added task: Buy milk (ID: 4)'')
   \<and> (\<exists>tm'. handleInput env24 (EventKey KeyEnter 0)
             (tm3\<lparr>inputMode := ''addsubtask'', inputStep := 1, inputTitle := ''Buy milk'', inputPriority := ''200''\<rparr>)
            = Some (False, tm')
        \<and> table (db tm')
            = table file3 @
              [\<lparr>row_id = 4, row_title = ''Buy milk'', row_priority = 50, row_created_at = at_second 40,
                row_parent_id = Some 1\<rparr>])
   \<and> (\<exists>tm'. handleInput env24 (EventKey KeyEnter 0) (tm3\<lparr>editMode := True, editBuffer := ''Plan: high''\<rparr>)
            = Some (False, tm')
        \<and> issued (db tm') = [CreateTable, SelectAll, Update 1 ''Plan'' 50, SelectAll])"
proof -
  have i4: "itoa 4 = ''4''"
    by (simp add: itoa_def digits.simps)
  show ?thesis
    using priority_fallback [where env = env24 and ch = 0 and
        tm = "tm3\<lparr>inputMode := ''add'', inputStep := 1, inputTitle := ''Buy milk'', inputPriority := ''abc''\<rparr>"]
      priority_fallback [where env = env24 and ch = 0 and
        tm = "tm3\<lparr>inputMode := ''addsubtask'', inputStep := 1, inputTitle := ''Buy milk'', inputPriority := ''200''\<rparr>"]
      priority_fallback [where env = env24 and ch = 0 and
        tm = "tm3\<lparr>editMode := True, editBuffer := ''Plan: high''\<rparr>"]
      atoi_examples trim_examples i4
    by (auto simp add: tm3_def selectable_def file3_def task1_def new_row_def next_id_def env24_def)
qed






section \<open>The cursor\<close>

text \<open>\<open>rebuildFlatView\<close> clamps the cursor at both ends, whatever the state before.\<close>

lemma rebuildFlatView_valid_index: "valid_index (rebuildFlatView env tm)"
  by (simp add: valid_index_def rebuildFlatView_def adjustScroll_def Let_def)

text \<open>
  C3, what the code does on an empty flat view: \<open>G\<close> (jump to last) sets \<open>currentIndex\<close> to
  \<open>len(tm.flatView) - 1\<close> and does not clamp, so the cursor is -1 on an empty view, where
  the claim has 0. Half a page down ends the same way.
\<close>

theorem jump_to_last_on_empty_view:
  "map_option (\<lambda>(quit, tm). (flatView tm, currentIndex tm))
     (handleInput env24 (EventKey KeyOther (rune CHR ''G'')) tm0) = Some ([], - 1)"
  by (simp add: handleInput_def handleNormalMode_def normal_key_def normal_ch_def tm0_def
      adjustScroll_def env24_def)

lemma half_page_down_on_empty_view:
  "map_option (\<lambda>(quit, tm). (flatView tm, currentIndex tm))
     (handleInput env24 (EventKey KeyCtrlD 0) tm0) = Some ([], - 1)"
  by (simp add: handleInput_def handleNormalMode_def normal_key_def normal_ch_def tm0_def
      adjustScroll_def env24_def scrollHalfPageDown_def half_def)

section \<open>Deleting\<close>

text \<open>
  C1, what the code does on a chain of three tasks: the statement of \<open>deleteTask\<close> removes
  the task and the rows that name it as parent, and the connection does not enforce
  foreign keys, so after deleting task 1 the row of its grandchild 3 is still in the
  table (and, its parent gone, it is in no flat view any more). With foreign keys
  enforced the same statement would have removed it.
\<close>

theorem delete_leaves_grandchild:
  "map_option (\<lambda>(quit, tm). (map row_id (table (db tm)), map ID (flatView tm), issued (db tm)))
     (handleInput env24 (EventKey KeyOther (rune CHR ''d'')) tm3)
   = Some ([3], [], [CreateTable, SelectAll, Delete 1, SelectAll])"
  by (simp add: handleInput_def handleNormalMode_def normal_key_def normal_ch_def tm3_def
      selectable_def at_index_def task1_def deleteTask_def sql_delete_def log_stmt_def file3_def
      delete_hits_def loadTasks_def sql_select_all_def buildHierarchy_def sortTasks_def
      rebuildFlatView_def adjustScroll_def env24_def Let_def)

lemma delete_with_foreign_keys_enforced:
  "map row_id (table (snd (sql_delete 1 (file3\<lparr>foreign_keys := True\<rparr>)))) = []"
  by (simp add: sql_delete_def log_stmt_def file3_def delete_hits_def cascade.simps refers_to_def Let_def)

end
